theory Spec2Isabelle
  imports Main "HOL-Library.Word"
begin

unbundle bit_operations_syntax

section \<open>Data model\<close>

text \<open>
  The repository is one C++ translation unit, \<^verbatim>\<open>cpp/crypto.cpp\<close>, whose function
  \<^verbatim>\<open>encrypt_secret\<close> composes four libsodium calls. A C \<^verbatim>\<open>char\<close> is a \<^typ>\<open>char\<close>, an
  \<^verbatim>\<open>unsigned char\<close> is an 8-bit word, an \<^verbatim>\<open>unsigned int\<close> a 32-bit word and a C \<^verbatim>\<open>int\<close>
  status an \<^typ>\<open>int\<close>. A \<^verbatim>\<open>size_t\<close> is a \<^typ>\<open>nat\<close>: every \<^verbatim>\<open>size_t\<close> of
  \<^verbatim>\<open>encrypt_secret\<close> is the length of a string or of a vector that exists in memory, or
  the base64 length of one, and none of its additions can wrap for such a length.

  A pointer argument is an \<^typ>\<open>'a option\<close>, \<^term>\<open>None\<close> for the null pointer. A
  \<^verbatim>\<open>const char*\<close> that is not null is the list of the bytes found at the address; the C
  string it denotes ends before the first zero byte (before the end of the list when the
  list holds none, the terminator being the byte after it).
\<close>

type_synonym byte = "8 word"
type_synonym uint = "32 word"

definition strlen :: "string \<Rightarrow> nat" where
  "strlen s = length (takeWhile (\<lambda>c. c \<noteq> CHR 0x00) s)"

text \<open>
  A write of \<open>data\<close> at the start of the memory region \<open>buf\<close>: the cells beyond the
  data keep their contents and the region keeps its size.
\<close>

definition store_bytes :: "'a list \<Rightarrow> 'a list \<Rightarrow> 'a list" where
  "store_bytes buf data = take (length buf) data @ drop (length data) buf"

text \<open>
  What can end a call other than a return: \<^verbatim>\<open>sodium_misuse()\<close> aborts the process, and
  a write past the end of the caller's region is undefined behaviour.
\<close>

datatype fault = Misuse | Overrun

section \<open>The libsodium codec, as \<^verbatim>\<open>encrypt_secret\<close> calls it\<close>

text \<open>
  libsodium's constants: \<^verbatim>\<open>crypto_box_PUBLICKEYBYTES\<close> is 32, \<^verbatim>\<open>crypto_box_SEALBYTES\<close> is
  \<^verbatim>\<open>crypto_box_PUBLICKEYBYTES + crypto_box_MACBYTES\<close> = 32 + 16, and
  \<^verbatim>\<open>sodium_base64_VARIANT_ORIGINAL\<close> is 1.
\<close>

definition crypto_box_PUBLICKEYBYTES :: nat where
  "crypto_box_PUBLICKEYBYTES = 32"

definition crypto_box_SEALBYTES :: nat where
  "crypto_box_SEALBYTES = 48"

definition sodium_base64_VARIANT_ORIGINAL :: uint where
  "sodium_base64_VARIANT_ORIGINAL = 1"

text \<open>
  The macro of \<^verbatim>\<open>sodium/utils.h\<close>:
  \<^verbatim>\<open>
  #define sodium_base64_ENCODED_LEN(BIN_LEN, VARIANT) \
    (((BIN_LEN) / 3U) * 4U + \
    ((((BIN_LEN) - ((BIN_LEN) / 3U) * 3U) | (((BIN_LEN) - ((BIN_LEN) / 3U) * 3U) >> 1)) & 1U) * \
     (4U - (~((((VARIANT) & 2U) >> 1) - 1U) & (3U - ((BIN_LEN) - ((BIN_LEN) / 3U) * 3U)))) + 1U)
  \<close>
  The subterm on \<open>VARIANT\<close> is \<^verbatim>\<open>unsigned int\<close> arithmetic, where \<open>0 - 1\<close> wraps.
\<close>

definition sodium_base64_ENCODED_LEN :: "nat \<Rightarrow> uint \<Rightarrow> nat" where
  "sodium_base64_ENCODED_LEN BIN_LEN VARIANT =
     (BIN_LEN div 3) * 4 +
     (((BIN_LEN - (BIN_LEN div 3) * 3) OR drop_bit 1 (BIN_LEN - (BIN_LEN div 3) * 3)) AND 1) *
     (4 - (unat (NOT (drop_bit 1 (VARIANT AND 2) - 1)) AND (3 - (BIN_LEN - (BIN_LEN div 3) * 3)))) + 1"

text \<open>
  \<^verbatim>\<open>b64_byte_to_char\<close> of \<^verbatim>\<open>codecs.c\<close>. libsodium computes it without branches, each
  comparison a mask of 0 or 0xFF that is and-ed with the value of its range. Its argument
  is a sextet at every call (the encoder passes \<^verbatim>\<open>... & 0x3F\<close>), where each mask is the
  comparison it is named after; a mask is an \<open>if\<close> here.
  \<^verbatim>\<open>
  return (LT(x, 26) & (x + 'A')) | (GE(x, 26) & LT(x, 52) & (x + ('a' - 26))) |
         (GE(x, 52) & LT(x, 62) & (x + ('0' - 52))) | (EQ(x, 62) & '+') | (EQ(x, 63) & '/');
  \<close>
\<close>

definition b64_byte_to_char :: "uint \<Rightarrow> char" where
  "b64_byte_to_char x = char_of (unat (
     (if x < 26 then x + 65 else 0) OR
     (if 26 \<le> x \<and> x < 52 then x + (97 - 26) else 0) OR
     (if 52 \<le> x \<and> x < 62 then x + (48 - 52) else 0) OR
     (if x = 62 then 43 else 0) OR
     (if x = 63 then 47 else 0)))"

text \<open>
  The decoder's \<^verbatim>\<open>b64_char_to_byte(int c)\<close> receives a plain \<^verbatim>\<open>char\<close> of the key text.
  A plain \<^verbatim>\<open>char\<close> is signed here (as on x86-64), so a byte from 0x80 on is a negative
  \<^verbatim>\<open>int\<close>, and the casts of the comparison macros turn it into an \<^verbatim>\<open>unsigned int\<close> whose
  upper 24 bits are set. On such a value \<^verbatim>\<open>EQ\<close> is not equality, so the macros are kept
  as \<^verbatim>\<open>codecs.c\<close> writes them:
  \<^verbatim>\<open>
  #define EQ(x, y) ((((0U - ((unsigned int) (x) ^ (unsigned int) (y))) >> 8) & 0xFF) ^ 0xFF)
  #define GT(x, y) ((((unsigned int) (y) - (unsigned int) (x)) >> 8) & 0xFF)
  #define GE(x, y) (GT(y, x) ^ 0xFF)
  #define LT(x, y) GT(y, x)
  #define LE(x, y) GE(y, x)
  \<close>
\<close>

definition EQ :: "uint \<Rightarrow> uint \<Rightarrow> uint" where
  "EQ x y = (drop_bit 8 (0 - (x XOR y)) AND 0xFF) XOR 0xFF"

definition GT :: "uint \<Rightarrow> uint \<Rightarrow> uint" where
  "GT x y = drop_bit 8 (y - x) AND 0xFF"

definition GE :: "uint \<Rightarrow> uint \<Rightarrow> uint" where
  "GE x y = GT y x XOR 0xFF"

definition LT :: "uint \<Rightarrow> uint \<Rightarrow> uint" where
  "LT x y = GT y x"

definition LE :: "uint \<Rightarrow> uint \<Rightarrow> uint" where
  "LE x y = GE y x"

text \<open>
  \<^verbatim>\<open>
  const unsigned int x =
      (GE(c, 'A') & LE(c, 'Z') & (c - 'A')) | (GE(c, 'a') & LE(c, 'z') & (c - ('a' - 26))) |
      (GE(c, '0') & LE(c, '9') & (c - ('0' - 52))) | (EQ(c, '+') & 62) | (EQ(c, '/') & 63);
  return x | (EQ(x, 0) & (EQ(c, 'A') ^ 0xFF));
  \<close>
  The character is sign-extended to the 32 bits of \<open>c\<close>. The result is the sextet of a
  character of the alphabet, 0xFF for every other character below 0x80, and 63 for every
  byte from 0x80 on, where both \<^verbatim>\<open>EQ(c, '+')\<close> and \<^verbatim>\<open>EQ(c, '/')\<close> are 0xFF (lemma
  \<open>b64_char_to_byte_nat\<close> below).
\<close>

definition b64_char_to_byte :: "char \<Rightarrow> uint" where
  "b64_char_to_byte ch =
     (let c = scast (of_char ch :: byte) :: uint;
          x = (GE c 65 AND LE c 90 AND (c - 65)) OR
              (GE c 97 AND LE c 122 AND (c - (97 - 26))) OR
              (GE c 48 AND LE c 57 AND (c - (48 - 52))) OR
              (EQ c 43 AND 62) OR
              (EQ c 47 AND 63)
      in x OR (EQ x 0 AND (EQ c 65 XOR 0xFF)))"

subsection \<open>\<^verbatim>\<open>sodium_base642bin\<close>\<close>

text \<open>
  The decoding loop, with \<^verbatim>\<open>ignore = NULL\<close> and the original variant, over the characters
  from \<^verbatim>\<open>b64_pos\<close> on. The bytes written so far are \<open>bin\<close>, so \<^verbatim>\<open>bin_pos\<close> is
  \<^term>\<open>length bin\<close>. It returns \<^verbatim>\<open>ret\<close>, \<^verbatim>\<open>acc\<close>, \<^verbatim>\<open>acc_len\<close>, the bytes written and
  the characters not consumed.
  \<^verbatim>\<open>
  while (b64_pos < b64_len) {
      c = b64[b64_pos];
      d = b64_char_to_byte(c);
      if (d == 0xFF) { if (ignore != NULL && ...) {...} break; }
      acc = (acc << 6) + d;
      acc_len += 6;
      if (acc_len >= 8) {
          acc_len -= 8;
          if (bin_pos >= bin_maxlen) { errno = ERANGE; ret = -1; break; }
          bin[bin_pos++] = (acc >> acc_len) & 0xFF;
      }
      b64_pos++;
  }
  \<close>
\<close>

fun base642bin_loop ::
  "nat \<Rightarrow> string \<Rightarrow> uint \<Rightarrow> nat \<Rightarrow> byte list \<Rightarrow> int \<times> uint \<times> nat \<times> byte list \<times> string" where
  "base642bin_loop bin_maxlen [] acc acc_len bin = (0, acc, acc_len, bin, [])"
| "base642bin_loop bin_maxlen (c # cs) acc acc_len bin =
     (let d = b64_char_to_byte c in
      if d = 0xFF then (0, acc, acc_len, bin, c # cs)
      else
        let acc = push_bit 6 acc + d;
            acc_len = acc_len + 6
        in if acc_len \<ge> 8 then
             let acc_len = acc_len - 8
             in if length bin \<ge> bin_maxlen then (- 1, acc, acc_len, bin, c # cs)
                else base642bin_loop bin_maxlen cs acc acc_len
                       (bin @ [ucast (drop_bit acc_len acc AND 0xFF)])
           else base642bin_loop bin_maxlen cs acc acc_len bin)"

text \<open>
  \<^verbatim>\<open>_sodium_base642bin_skip_padding\<close> with \<^verbatim>\<open>ignore = NULL\<close>: the status and the characters
  left after the padding.
\<close>

fun skip_padding :: "string \<Rightarrow> nat \<Rightarrow> int \<times> string" where
  "skip_padding cs 0 = (0, cs)"
| "skip_padding [] (Suc padding_len) = (- 1, [])"
| "skip_padding (c # cs) (Suc padding_len) =
     (if c = CHR ''='' then skip_padding cs padding_len else (- 1, c # cs))"

text \<open>
  \<^verbatim>\<open>sodium_base642bin(bin, bin_maxlen, b64, b64_len, NULL, &bin_len, NULL, ORIGINAL)\<close>: the
  status, the region \<open>bin\<close> after the call and \<^verbatim>\<open>*bin_len\<close>.
  \<^verbatim>\<open>
  if (acc_len > 4U || (acc & ((1U << acc_len) - 1U)) != 0U) {
      ret = -1;
  } else if (ret == 0 && (((unsigned int) variant) & VARIANT_NO_PADDING_MASK) == 0U) {
      ret = _sodium_base642bin_skip_padding(b64, b64_len, &b64_pos, ignore, acc_len / 2);
  }
  if (ret != 0) {
      bin_pos = (size_t) 0U;
  } else if (b64_end != NULL) {
      *b64_end = &b64[b64_pos];
  } else if (b64_pos != b64_len) {
      errno = EINVAL;
      ret = -1;
  }
  if (bin_len != NULL) { *bin_len = bin_pos; }
  return ret;
  \<close>
\<close>

definition sodium_base642bin ::
  "byte list \<Rightarrow> nat \<Rightarrow> string \<Rightarrow> nat \<Rightarrow> int \<times> byte list \<times> nat" where
  "sodium_base642bin bin bin_maxlen b64 b64_len =
     (case base642bin_loop bin_maxlen (take b64_len b64) 0 0 [] of
        (ret, acc, acc_len, written, rest) \<Rightarrow>
          let (ret, rest) =
                (if acc_len > 4 \<or> acc AND (push_bit acc_len 1 - 1) \<noteq> 0 then (- 1, rest)
                 else if ret = 0 then skip_padding rest (acc_len div 2)
                 else (ret, rest));
              bin_pos = (if ret \<noteq> 0 then 0 else length written);
              ret = (if ret = 0 \<and> rest \<noteq> [] then - 1 else ret)
          in (ret, store_bytes bin written, bin_pos))"

subsection \<open>\<^verbatim>\<open>sodium_bin2base64\<close>\<close>

text \<open>
  The inner loop of the encoder, \<^verbatim>\<open>while (acc_len >= 6) { acc_len -= 6;
  b64[b64_pos++] = (char) b64_byte_to_char((acc >> acc_len) & 0x3F); }\<close>, on the
  characters written so far.
\<close>

function bin2base64_emit :: "uint \<Rightarrow> nat \<Rightarrow> string \<Rightarrow> nat \<times> string" where
  "bin2base64_emit acc acc_len b64 =
     (if acc_len \<ge> 6 then
        bin2base64_emit acc (acc_len - 6)
          (b64 @ [b64_byte_to_char (drop_bit (acc_len - 6) acc AND 0x3F)])
      else (acc_len, b64))"
  by pat_completeness auto
termination
  by (relation "measure (\<lambda>(acc, acc_len, b64). acc_len)") auto

declare bin2base64_emit.simps [simp del]

text \<open>
  \<^verbatim>\<open>while (bin_pos < bin_len) { acc = (acc << 8) + bin[bin_pos++]; acc_len += 8; ... }\<close>
\<close>

fun bin2base64_loop :: "byte list \<Rightarrow> uint \<Rightarrow> nat \<Rightarrow> string \<Rightarrow> uint \<times> nat \<times> string" where
  "bin2base64_loop [] acc acc_len b64 = (acc, acc_len, b64)"
| "bin2base64_loop (x # xs) acc acc_len b64 =
     (let acc = push_bit 8 acc + ucast x;
          (acc_len, b64) = bin2base64_emit acc (acc_len + 8) b64
      in bin2base64_loop xs acc acc_len b64)"

text \<open>
  The text of the encoder: the characters of the loop, the character of the bits left in
  \<^verbatim>\<open>acc\<close>, and \<^verbatim>\<open>'='\<close> up to \<^verbatim>\<open>b64_len\<close>.
  \<^verbatim>\<open>
  if (acc_len > 0) {
      b64[b64_pos++] = (char) b64_byte_to_char((acc << (6 - acc_len)) & 0x3F);
  }
  assert(b64_pos <= b64_len);
  while (b64_pos < b64_len) { b64[b64_pos++] = '='; }
  \<close>
\<close>

definition bin2base64_text :: "byte list \<Rightarrow> nat \<Rightarrow> string" where
  "bin2base64_text bin b64_len =
     (case bin2base64_loop bin 0 0 [] of
        (acc, acc_len, b64) \<Rightarrow>
          let b64 = (if acc_len > 0
                     then b64 @ [b64_byte_to_char (push_bit (6 - acc_len) acc AND 0x3F)]
                     else b64)
          in b64 @ replicate (b64_len - length b64) CHR ''='')"

text \<open>
  \<^verbatim>\<open>sodium_bin2base64(b64, b64_maxlen, bin, bin_len, ORIGINAL)\<close>: the region \<open>b64\<close> after
  the call. The function returns its argument \<open>b64\<close>, never a null pointer; the result is
  \<^term>\<open>Some\<close> of the region, for the caller's test of the pointer.
  \<^verbatim>\<open>
  nibbles = bin_len / 3;
  remainder = bin_len - 3 * nibbles;
  b64_len = nibbles * 4;
  if (remainder != 0) {
      if ((((unsigned int) variant) & VARIANT_NO_PADDING_MASK) == 0U) { b64_len += 4; } else {...}
  }
  if (b64_maxlen <= b64_len) { sodium_misuse(); }
  ...
  do { b64[b64_pos++] = 0U; } while (b64_pos < b64_maxlen);
  return b64;
  \<close>
  The last loop fills the region with zero bytes up to \<^verbatim>\<open>b64_maxlen\<close>.
\<close>

definition sodium_bin2base64 ::
  "string \<Rightarrow> nat \<Rightarrow> byte list \<Rightarrow> nat \<Rightarrow> fault + string option" where
  "sodium_bin2base64 b64 b64_maxlen bin bin_len =
     (let nibbles = bin_len div 3;
          remainder = bin_len - 3 * nibbles;
          b64_len = nibbles * 4;
          b64_len = (if remainder \<noteq> 0 then b64_len + 4 else b64_len)
      in if b64_maxlen \<le> b64_len then Inl Misuse
         else
           let text = bin2base64_text (take bin_len bin) b64_len;
               written = text @ replicate (max 1 (b64_maxlen - length text)) CHR 0x00
           in if length written > length b64 then Inl Overrun
              else Inr (Some (store_bytes b64 written)))"

section \<open>\<^verbatim>\<open>encrypt_secret\<close>\<close>

text \<open>
  \<^verbatim>\<open>crypto_box_seal(c, m, mlen, pk)\<close> is libsodium's sealed box: it draws an ephemeral key
  pair, so it is a parameter of the model, one outcome of the call: from the \<open>mlen\<close> bytes
  of \<open>m\<close> that it reads and the 32 bytes of \<open>pk\<close> to its status and the bytes it writes
  to \<open>c\<close>.
\<close>

type_synonym box_seal = "byte list \<Rightarrow> byte list \<Rightarrow> int \<times> byte list"

text \<open>
  The result of a call that returns: the status, and the caller's region \<open>output\<close> and
  \<^verbatim>\<open>*output_len\<close> after the call. The two vectors are zero-initialised by their
  constructor.
\<close>

definition encrypt_secret ::
  "box_seal \<Rightarrow> string option \<Rightarrow> string option \<Rightarrow> string option \<Rightarrow> nat option \<Rightarrow>
   fault + (int \<times> string option \<times> nat option)" where
  "encrypt_secret crypto_box_seal public_key_b64 plaintext output output_len =
     (case (public_key_b64, plaintext, output, output_len) of
        (Some key_b64, Some ptext, Some out, Some cap) \<Rightarrow>
          let public_key_len = strlen key_b64;
              public_key = replicate crypto_box_PUBLICKEYBYTES (0 :: byte);
              (ret, public_key, decoded_len) =
                sodium_base642bin public_key (length public_key) key_b64 public_key_len
          in if ret \<noteq> 0 then Inr (- 2, output, output_len)
             else
               let plaintext_len = strlen ptext;
                   ciphertext_len = crypto_box_SEALBYTES + plaintext_len;
                   ciphertext = replicate ciphertext_len (0 :: byte);
                   (ret, written) =
                     crypto_box_seal (map of_char (take plaintext_len ptext)) public_key;
                   ciphertext = store_bytes ciphertext written
               in if ret \<noteq> 0 then Inr (- 3, output, output_len)
                  else
                    let b64_len =
                          sodium_base64_ENCODED_LEN ciphertext_len sodium_base64_VARIANT_ORIGINAL
                    in if b64_len > cap then Inr (- 4, output, Some b64_len)
                       else
                         (case sodium_bin2base64 out cap ciphertext ciphertext_len of
                            Inl f \<Rightarrow> Inl f
                          | Inr None \<Rightarrow> Inr (- 5, output, output_len)
                          | Inr (Some out') \<Rightarrow> Inr (0, Some out', Some (strlen out')))
      | _ \<Rightarrow> Inr (- 1, output, output_len))"

text \<open>
  The reference for the codec, RFC 4648: the bytes are taken three at a time and the 24
  bits of a group are split into four sextets; a last group of one or two bytes gives two
  or three sextets, the bits that it lacks being zero.
\<close>

fun base64_sextets :: "byte list \<Rightarrow> uint list" where
  "base64_sextets [] = []"
| "base64_sextets [a] = [drop_bit 2 (ucast a), push_bit 4 (take_bit 2 (ucast a))]"
| "base64_sextets [a, b] =
     [drop_bit 2 (ucast a),
      push_bit 4 (take_bit 2 (ucast a)) OR drop_bit 4 (ucast b),
      push_bit 2 (take_bit 4 (ucast b))]"
| "base64_sextets (a # b # c # bs) =
     [drop_bit 2 (ucast a),
      push_bit 4 (take_bit 2 (ucast a)) OR drop_bit 4 (ucast b),
      push_bit 2 (take_bit 4 (ucast b)) OR drop_bit 6 (ucast c),
      take_bit 6 (ucast c)] @ base64_sextets bs"

text \<open>A text without a zero byte: the characters of a C string before its terminator.\<close>

definition text_chars :: "string \<Rightarrow> bool" where
  "text_chars s = (\<forall>c \<in> set s. c \<noteq> CHR 0x00)"

text \<open>
  Two outcomes of \<^verbatim>\<open>crypto_box_seal\<close> for the examples. The first has status 0 and has
  written the 32 + 16 + \<open>mlen\<close> bytes of a sealed box (the key, sixteen zero bytes and the
  message: the sizes of a box, not a cipher text). The second has status -1 and has
  written nothing.
\<close>

definition seal_stub :: box_seal where
  "seal_stub m pk = (0, pk @ replicate 16 0 @ m)"

definition seal_fails :: box_seal where
  "seal_fails m pk = (- 1, [])"

text \<open>
  \<^verbatim>\<open>crypto_box_seal_open\<close>, the reference that opens a sealed box with the recipient's
  secret key, is a parameter as well: from the cipher text and the secret key to the
  message, or \<^term>\<open>None\<close> when the box does not open. For the examples, the opening that
  belongs to \<^term>\<open>seal_stub\<close> returns the bytes after the first
  \<^verbatim>\<open>crypto_box_SEALBYTES\<close>.
\<close>

type_synonym box_open = "byte list \<Rightarrow> byte list \<Rightarrow> byte list option"

definition open_stub :: box_open where
  "open_stub c sk = (if length c < crypto_box_SEALBYTES then None
                     else Some (drop crypto_box_SEALBYTES c))"

text \<open>The stages of \<^verbatim>\<open>encrypt_secret\<close>, as it calls them.\<close>

abbreviation decoded_key :: "string \<Rightarrow> int \<times> byte list \<times> nat" where
  "decoded_key key_b64 \<equiv>
     sodium_base642bin (replicate crypto_box_PUBLICKEYBYTES 0) crypto_box_PUBLICKEYBYTES
       key_b64 (strlen key_b64)"

abbreviation sealed :: "box_seal \<Rightarrow> string \<Rightarrow> string \<Rightarrow> int \<times> byte list" where
  "sealed crypto_box_seal key_b64 ptext \<equiv>
     crypto_box_seal (map of_char (take (strlen ptext) ptext)) (fst (snd (decoded_key key_b64)))"

abbreviation required_len :: "string \<Rightarrow> nat" where
  "required_len ptext \<equiv>
     sodium_base64_ENCODED_LEN (crypto_box_SEALBYTES + strlen ptext) sodium_base64_VARIANT_ORIGINAL"

abbreviation ciphertext_of :: "box_seal \<Rightarrow> string \<Rightarrow> string \<Rightarrow> byte list" where
  "ciphertext_of crypto_box_seal key_b64 ptext \<equiv>
     store_bytes (replicate (crypto_box_SEALBYTES + strlen ptext) 0)
       (snd (sealed crypto_box_seal key_b64 ptext))"

section \<open>The codec: lengths and characters\<close>

lemma div3_cases:
  obtains k where "n = 3 * k" "(n + 2) div 3 = k" "n div 3 = k" "n mod 3 = 0"
  | k where "n = 3 * k + 1" "(n + 2) div 3 = k + 1" "n div 3 = k" "n mod 3 = 1"
  | k where "n = 3 * k + 2" "(n + 2) div 3 = k + 1" "n div 3 = k" "n mod 3 = (2::nat)"
proof -
  have "n mod 3 < 3" by simp
  then consider "n mod 3 = 0" | "n mod 3 = 1" | "n mod 3 = 2" by linarith
  then show thesis
  proof cases
    case 1
    have e: "n = 3 * (n div 3)" using mult_div_mod_eq [of 3 n] 1 by simp
    have "(3 * (n div 3) + 2) div 3 = n div 3" by simp
    with e have "(n + 2) div 3 = n div 3" by metis
    from e this refl 1 show ?thesis by (rule that(1))
  next
    case 2
    have e: "n = 3 * (n div 3) + 1" using mult_div_mod_eq [of 3 n] 2 by simp
    have "(3 * (n div 3) + 1 + 2) div 3 = n div 3 + 1" by simp
    with e have "(n + 2) div 3 = n div 3 + 1" by metis
    from e this refl 2 show ?thesis by (rule that(2))
  next
    case 3
    have e: "n = 3 * (n div 3) + 2" using mult_div_mod_eq [of 3 n] 3 by simp
    have "(3 * (n div 3) + 2 + 2) div 3 = n div 3 + 1" by simp
    with e have "(n + 2) div 3 = n div 3 + 1" by metis
    from e this refl 3 show ?thesis by (rule that(3))
  qed
qed

lemma ENCODED_LEN_ORIGINAL:
  "sodium_base64_ENCODED_LEN n sodium_base64_VARIANT_ORIGINAL = 4 * ((n + 2) div 3) + 1"
proof -
  have v: "unat (NOT (drop_bit 1 ((1::uint) AND 2) - 1)) = 0"
    by simp
  have r: "n - n div 3 * 3 = n mod 3"
    by (simp add: minus_div_mult_eq_mod)
  show ?thesis
    unfolding sodium_base64_ENCODED_LEN_def sodium_base64_VARIANT_ORIGINAL_def v r
    by (cases n rule: div3_cases) simp_all
qed

lemma of_char_char_of_nat: "(of_char (char_of (n::nat)) :: uint) = of_nat (n mod 256)"
proof -
  have "(of_char (char_of n) :: uint) = of_nat (of_char (char_of n))"
    by (simp only: of_nat_of_char)
  then show ?thesis by simp
qed

lemma b64_byte_to_char_nat:
  assumes "x < 64"
  shows "b64_byte_to_char x = char_of
     (if unat x < 26 then unat x + 65 else if unat x < 52 then unat x + 71
      else if unat x < 62 then unat x - 4 else if unat x = 62 then 43 else 47)"
proof -
  have n: "unat x < 64" using assms by (simp add: word_less_nat_alt)
  consider "unat x < 26" | "26 \<le> unat x" "unat x < 52" | "52 \<le> unat x" "unat x < 62"
    | "unat x = 62" | "unat x = 63"
    using n by linarith
  then show ?thesis
  proof cases
    case 1
    then have "unat (x + 65) = unat x + 65"
      by (simp add: unat_word_ariths)
    with 1 show ?thesis
      by (simp add: b64_byte_to_char_def word_less_nat_alt word_le_nat_alt word_unat_eq_iff)
  next
    case 2
    then have "unat (x + 71) = unat x + 71"
      by (simp add: unat_word_ariths)
    with 2 show ?thesis
      by (simp add: b64_byte_to_char_def word_less_nat_alt word_le_nat_alt word_unat_eq_iff)
  next
    case 3
    then have "unat (x - 4) = unat x - 4"
      by (simp add: unat_sub word_le_nat_alt)
    with 3 show ?thesis
      by (simp add: b64_byte_to_char_def word_less_nat_alt word_le_nat_alt word_unat_eq_iff)
  next
    case 4
    then have "x = 62" by (simp add: word_unat_eq_iff)
    then show ?thesis
      by (simp add: b64_byte_to_char_def)
  next
    case 5
    then have "x = 63" by (simp add: word_unat_eq_iff)
    then show ?thesis
      by (simp add: b64_byte_to_char_def)
  qed
qed

lemma b64_char_to_byte_nat:
  "b64_char_to_byte ch =
     (if 128 \<le> (of_char ch :: nat) then 63
      else if 65 \<le> (of_char ch :: nat) \<and> (of_char ch :: nat) \<le> 90 then of_nat (of_char ch - 65)
      else if 97 \<le> (of_char ch :: nat) \<and> (of_char ch :: nat) \<le> 122 then of_nat (of_char ch - 71)
      else if 48 \<le> (of_char ch :: nat) \<and> (of_char ch :: nat) \<le> 57 then of_nat (of_char ch + 4)
      else if (of_char ch :: nat) = 43 then 62
      else if (of_char ch :: nat) = 47 then 63 else 0xFF)"
proof (cases ch)
  case (Char b0 b1 b2 b3 b4 b5 b6 b7)
  show ?thesis
    unfolding Char
    by (cases b0; cases b1; cases b2; cases b3; cases b4; cases b5; cases b6; cases b7;
        simp add: b64_char_to_byte_def Let_def EQ_def GT_def GE_def LE_def mask_numeral)
qed

lemma b64_alphabet:
  assumes "x < 64"
  shows "b64_byte_to_char x \<noteq> CHR 0x00" "b64_byte_to_char x \<noteq> CHR ''=''"
    "b64_char_to_byte (b64_byte_to_char x) = x"
proof -
  have n: "unat x < 64" using assms by (simp add: word_less_nat_alt)
  have x: "of_nat (unat x) = x" by simp
  consider "unat x < 26" | "26 \<le> unat x" "unat x < 52" | "52 \<le> unat x" "unat x < 62"
    | "unat x = 62" | "unat x = 63"
    using n by linarith
  then have "b64_byte_to_char x \<noteq> CHR 0x00 \<and> b64_byte_to_char x \<noteq> CHR ''='' \<and>
    b64_char_to_byte (b64_byte_to_char x) = x"
  proof cases
    case 1
    then show ?thesis
      unfolding b64_byte_to_char_nat [OF assms] b64_char_to_byte_nat
      by (simp add: char_of_eq_iff take_bit_eq_mod x)
  next
    case 2
    then show ?thesis
      unfolding b64_byte_to_char_nat [OF assms] b64_char_to_byte_nat
      by (simp add: char_of_eq_iff take_bit_eq_mod x)
  next
    case 3
    then have r: "48 \<le> unat x - 4" "unat x - 4 \<le> 57" "unat x - 4 + 4 = unat x"
      "\<not> (65 \<le> unat x - 4)" "\<not> (97 \<le> unat x - 4)" "unat x - 4 < 256"
      "\<not> (128 \<le> unat x - 4)" "unat x - 4 \<noteq> 61" by simp_all
    from 3 show ?thesis
      unfolding b64_byte_to_char_nat [OF assms] b64_char_to_byte_nat
      by (simp add: char_of_eq_iff take_bit_eq_mod x r)
  next
    case 4
    then have "x = 62" by (simp add: word_unat_eq_iff)
    with 4 show ?thesis
      unfolding b64_byte_to_char_nat [OF assms] b64_char_to_byte_nat
      by (simp add: char_of_eq_iff take_bit_eq_mod)
  next
    case 5
    then have "x = 63" by (simp add: word_unat_eq_iff)
    with 5 show ?thesis
      unfolding b64_byte_to_char_nat [OF assms] b64_char_to_byte_nat
      by (simp add: char_of_eq_iff take_bit_eq_mod)
  qed
  then show "b64_byte_to_char x \<noteq> CHR 0x00" "b64_byte_to_char x \<noteq> CHR ''=''"
    "b64_char_to_byte (b64_byte_to_char x) = x" by simp_all
qed

lemma and_63_less: "(x :: uint) AND 0x3F < 64"
proof -
  have "x AND 0x3F \<le> 0x3F" by (rule word_and_le1)
  then show ?thesis by (simp add: word_le_nat_alt word_less_nat_alt)
qed

lemma emit_props:
  "bin2base64_emit acc al b64 = (al', b64') \<Longrightarrow>
     al' = al mod 6 \<and> length b64' = length b64 + al div 6 \<and> (text_chars b64 \<longrightarrow> text_chars b64')"
proof (induction acc al b64 rule: bin2base64_emit.induct)
  case (1 acc acc_len b64)
  show ?case
  proof (cases "acc_len \<ge> 6")
    case True
    let ?b = "b64 @ [b64_byte_to_char (drop_bit (acc_len - 6) acc AND 0x3F)]"
    from True "1.prems" have e: "bin2base64_emit acc (acc_len - 6) ?b = (al', b64')"
      by (simp add: bin2base64_emit.simps [of acc acc_len])
    from "1.IH" [OF True e] have ih: "al' = (acc_len - 6) mod 6" "length b64' = length ?b + (acc_len - 6) div 6"
      "text_chars ?b \<longrightarrow> text_chars b64'" by simp_all
    have tc: "text_chars b64 \<Longrightarrow> text_chars ?b"
      using b64_alphabet(1) [OF and_63_less] by (simp add: text_chars_def)
    from True have "(acc_len - 6) mod 6 = acc_len mod 6" "Suc ((acc_len - 6) div 6) = acc_len div 6"
      by (simp_all add: le_mod_geq le_div_geq)
    with ih tc show ?thesis by auto
  next
    case False
    with "1.prems" show ?thesis
      by (simp add: bin2base64_emit.simps [of acc acc_len])
  qed
qed

lemma loop_props:
  "bin2base64_loop bs acc al b64 = (acc', al', b64') \<Longrightarrow> al < 6 \<Longrightarrow>
     al' < 6 \<and> 6 * length b64' + al' = 6 * length b64 + al + 8 * length bs \<and> (text_chars b64 \<longrightarrow> text_chars b64')"
proof (induction bs arbitrary: acc al b64)
  case Nil
  then show ?case by simp
next
  case (Cons x xs)
  obtain al1 b1 where e: "bin2base64_emit (push_bit 8 acc + ucast x) (al + 8) b64 = (al1, b1)"
    by (cases "bin2base64_emit (push_bit 8 acc + ucast x) (al + 8) b64") auto
  from emit_props [OF e] have p: "al1 = (al + 8) mod 6" "length b1 = length b64 + (al + 8) div 6"
    "text_chars b64 \<longrightarrow> text_chars b1" by simp_all
  from Cons.prems(1) e have "bin2base64_loop xs (push_bit 8 acc + ucast x) al1 b1 = (acc', al', b64')"
    by simp
  from Cons.IH [OF this] p(1) have ih: "al' < 6" "6 * length b64' + al' = 6 * length b1 + al1 + 8 * length xs"
    "text_chars b1 \<longrightarrow> text_chars b64'" by simp_all
  have "6 * length b1 + al1 = 6 * length b64 + al + 8"
    unfolding p(1,2) by (simp add: algebra_simps)
  with ih p(3) show ?case by simp
qed

lemma enc_len_arith:
  "al < 6 \<Longrightarrow> 6 * l + al = 8 * n \<Longrightarrow> 0 < al \<Longrightarrow> l + 1 \<le> 4 * (((n::nat) + 2) div 3)"
  "6 * l + al = 8 * n \<Longrightarrow> l \<le> 4 * (((n::nat) + 2) div 3)"
  by (cases n rule: div3_cases; simp; linarith)+

lemma bin2base64_text_length:
  "length (bin2base64_text bs (4 * ((length bs + 2) div 3))) = 4 * ((length bs + 2) div 3)"
proof -
  obtain acc al b where l: "bin2base64_loop bs 0 0 [] = (acc, al, b)"
    by (cases "bin2base64_loop bs 0 0 []") auto
  from loop_props [OF l] have p: "al < 6" "6 * length b + al = 8 * length bs"
    by simp_all
  show ?thesis
  proof (cases "al > 0")
    case True
    from enc_len_arith(1) [OF p True] have "length b + 1 \<le> 4 * ((length bs + 2) div 3)" .
    with True show ?thesis
      unfolding bin2base64_text_def l by (simp add: Let_def)
  next
    case False
    from enc_len_arith(2) [OF p(2)] have "length b \<le> 4 * ((length bs + 2) div 3)" .
    with False show ?thesis
      unfolding bin2base64_text_def l by (simp add: Let_def)
  qed
qed

lemma text_chars_simps [simp]:
  "text_chars []"
  "text_chars (a @ b) \<longleftrightarrow> text_chars a \<and> text_chars b"
  "text_chars (c # b) \<longleftrightarrow> c \<noteq> CHR 0x00 \<and> text_chars b"
  "text_chars (replicate k CHR ''='')"
  by (auto simp add: text_chars_def)

lemma bin2base64_text_chars: "text_chars (bin2base64_text bs n)"
proof -
  obtain acc al b where l: "bin2base64_loop bs 0 0 [] = (acc, al, b)"
    by (cases "bin2base64_loop bs 0 0 []") auto
  from loop_props [OF l] have p: "text_chars b"
    by simp
  have q: "text_chars (b @ [b64_byte_to_char (push_bit (6 - al) acc AND 0x3F)])"
    using p b64_alphabet(1) [OF and_63_less] by simp
  show ?thesis
    unfolding bin2base64_text_def l using p q by (simp add: Let_def)
qed

lemma strlen_text: "text_chars s \<Longrightarrow> strlen (s @ CHR 0x00 # r) = length s"
  by (simp add: strlen_def text_chars_def takeWhile_append2 [of s])

lemma strlen_takeWhile: "takeWhile (\<lambda>c. c \<noteq> CHR 0x00) (s @ CHR 0x00 # r) = s" if "text_chars s"
  using that by (simp add: text_chars_def takeWhile_append2 [of s])

lemma b64_len_arith:
  "(n::nat) - 3 * (n div 3) \<noteq> 0 \<Longrightarrow> n div 3 * 4 + 4 = 4 * ((n + 2) div 3)"
  "(n::nat) - 3 * (n div 3) = 0 \<Longrightarrow> n div 3 * 4 = 4 * ((n + 2) div 3)"
  by (cases n rule: div3_cases; simp)+

lemma sodium_bin2base64_eq:
  assumes "length bin = bin_len"
  shows "sodium_bin2base64 b64 b64_maxlen bin bin_len =
     (if b64_maxlen \<le> 4 * ((bin_len + 2) div 3) then Inl Misuse
      else if length b64 < b64_maxlen then Inl Overrun
      else Inr (Some (bin2base64_text bin (4 * ((bin_len + 2) div 3)) @
                      replicate (b64_maxlen - 4 * ((bin_len + 2) div 3)) CHR 0x00 @
                      drop b64_maxlen b64)))"
proof -
  let ?L = "4 * ((bin_len + 2) div 3)"
  have L: "(if bin_len - 3 * (bin_len div 3) \<noteq> 0 then bin_len div 3 * 4 + 4 else bin_len div 3 * 4) = ?L"
    using b64_len_arith [of bin_len] by (cases "bin_len - 3 * (bin_len div 3) = 0") simp_all
  have len: "length (bin2base64_text bin ?L) = ?L"
    using bin2base64_text_length [of bin] assms by simp
  have u: "sodium_bin2base64 b64 b64_maxlen bin bin_len =
     (if b64_maxlen \<le> ?L then Inl Misuse
         else
           let text = bin2base64_text (take bin_len bin) ?L;
               written = text @ replicate (max 1 (b64_maxlen - length text)) CHR 0x00
           in if length written > length b64 then Inl Overrun
              else Inr (Some (store_bytes b64 written)))"
    unfolding sodium_bin2base64_def Let_def L ..
  show ?thesis
  proof (cases "b64_maxlen \<le> ?L")
    case True
    then show ?thesis unfolding u by simp
  next
    case False
    then have m: "max 1 (b64_maxlen - ?L) = b64_maxlen - ?L" by simp
    show ?thesis
      unfolding u using False assms len
      by (simp add: Let_def store_bytes_def m)
  qed
qed

section \<open>The codec: decoding the encoder's text\<close>

lemma and_63: "(x::uint) AND 0x3F = take_bit 6 x"
  by (simp add: take_bit_eq_mask mask_numeral)

lemma and_255: "(x::uint) AND 0xFF = take_bit 8 x"
  by (simp add: take_bit_eq_mask mask_numeral)

lemma acc_add_byte: "push_bit 8 (acc::uint) + ucast (x::byte) = push_bit 8 acc OR ucast x"
  by (rule disjunctive_add) (auto simp add: bit_simps dest: bit_imp_le_length)

lemma sextet_bits: "(d::uint) < 64 \<Longrightarrow> bit d n \<Longrightarrow> n < 6"
proof -
  assume "d < 64" "bit d n"
  then have "d AND mask 6 = d"
    by (intro less_mask_eq) simp
  then have "take_bit 6 d = d"
    by (simp add: take_bit_eq_mask)
  with \<open>bit d n\<close> show "n < 6"
    by (metis bit_take_bit_iff)
qed

lemma sextetI: "(\<And>n. bit (d::uint) n \<Longrightarrow> n < 6) \<Longrightarrow> d < 64"
proof -
  assume b: "\<And>n. bit d n \<Longrightarrow> n < 6"
  have "take_bit 6 d = d"
    by (rule bit_eqI) (auto simp add: bit_simps dest: b)
  then have "d = d AND mask 6"
    by (simp add: take_bit_eq_mask)
  also have "\<dots> < 2 ^ 6"
    by (rule and_mask_less') simp
  finally show ?thesis by simp
qed

lemma acc_add_sextet: "(d::uint) < 64 \<Longrightarrow> push_bit 6 acc + d = push_bit 6 acc OR d"
  by (rule disjunctive_add) (auto simp add: bit_simps dest: sextet_bits)

text \<open>The sextets that the encoder takes from its accumulator.\<close>

lemma enc_sextet1:
  "drop_bit 2 (push_bit 8 (acc::uint) + ucast (a::byte)) AND 0x3F = drop_bit 2 (ucast a)"
  unfolding and_63 acc_add_byte
  by (rule bit_eqI) (auto simp add: bit_simps dest: bit_imp_le_length)

lemma enc_sextet2:
  "drop_bit 4 (push_bit 8 (push_bit 8 (acc::uint) + ucast (a::byte)) + ucast (b::byte)) AND 0x3F =
     push_bit 4 (take_bit 2 (ucast a)) OR drop_bit 4 (ucast b)"
  unfolding and_63 acc_add_byte
  by (rule bit_eqI) (auto simp add: bit_simps dest: bit_imp_le_length)

lemma enc_sextet3:
  "drop_bit 6 (push_bit 8 (push_bit 8 (acc::uint) + ucast (b::byte)) + ucast (c::byte)) AND 0x3F =
     push_bit 2 (take_bit 4 (ucast b)) OR drop_bit 6 (ucast c)"
  unfolding and_63 acc_add_byte
  by (rule bit_eqI) (auto simp add: bit_simps dest: bit_imp_le_length)

lemma enc_sextet4:
  "(push_bit 8 (acc::uint) + ucast (c::byte)) AND 0x3F = take_bit 6 (ucast c)"
  unfolding and_63 acc_add_byte
  by (rule bit_eqI) (auto simp add: bit_simps dest: bit_imp_le_length)

lemma enc_last1:
  "push_bit 4 (push_bit 8 (acc::uint) + ucast (a::byte)) AND 0x3F = push_bit 4 (take_bit 2 (ucast a))"
  unfolding and_63 acc_add_byte
  by (rule bit_eqI) (auto simp add: bit_simps dest: bit_imp_le_length)

lemma enc_last2:
  "push_bit 2 (push_bit 8 (acc::uint) + ucast (b::byte)) AND 0x3F = push_bit 2 (take_bit 4 (ucast b))"
  unfolding and_63 acc_add_byte
  by (rule bit_eqI) (auto simp add: bit_simps dest: bit_imp_le_length)

lemma sextet_bounds:
  "drop_bit 2 (ucast (a::byte) :: uint) < 64"
  "push_bit 4 (take_bit 2 (ucast (a::byte) :: uint)) OR drop_bit 4 (ucast (b::byte)) < 64"
  "push_bit 4 (take_bit 2 (ucast (a::byte) :: uint)) < 64"
  "push_bit 2 (take_bit 4 (ucast (b::byte) :: uint)) OR drop_bit 6 (ucast (c::byte)) < 64"
  "push_bit 2 (take_bit 4 (ucast (b::byte) :: uint)) < 64"
  "take_bit 6 (ucast (c::byte) :: uint) < 64"
  by (rule sextetI, auto simp add: bit_simps dest: bit_imp_le_length)+

lemma Suc_Suc_diff2: "2 \<le> n \<Longrightarrow> Suc (Suc (n - 2)) = n" "\<not> n < 2 \<Longrightarrow> Suc (Suc (n - 2)) = n"
  by simp_all

text \<open>The bytes that the decoder takes from its accumulator, on the sextets of the encoder.\<close>

lemma dec_byte1:
  "ucast (drop_bit 4 (push_bit 6 (push_bit 6 (acc::uint) + drop_bit 2 (ucast (a::byte))) +
      (push_bit 4 (take_bit 2 (ucast a)) OR drop_bit 4 (ucast (b::byte)))) AND 0xFF) = a"
  unfolding and_255 acc_add_sextet [OF sextet_bounds(1)] acc_add_sextet [OF sextet_bounds(2)]
  by (rule bit_eqI) (auto simp add: bit_simps Suc_Suc_diff2 dest: bit_imp_le_length)

lemma dec_byte1_last:
  "ucast (drop_bit 4 (push_bit 6 (push_bit 6 (acc::uint) + drop_bit 2 (ucast (a::byte))) +
      push_bit 4 (take_bit 2 (ucast a))) AND 0xFF) = a"
  unfolding and_255 acc_add_sextet [OF sextet_bounds(1)] acc_add_sextet [OF sextet_bounds(3)]
  by (rule bit_eqI) (auto simp add: bit_simps Suc_Suc_diff2 dest: bit_imp_le_length)

lemma dec_byte2:
  "ucast (drop_bit 2 (push_bit 6 (push_bit 6 (acc::uint) +
        (push_bit 4 (take_bit 2 (ucast (a::byte))) OR drop_bit 4 (ucast (b::byte)))) +
      (push_bit 2 (take_bit 4 (ucast b)) OR drop_bit 6 (ucast (c::byte)))) AND 0xFF) = b"
  unfolding and_255 acc_add_sextet [OF sextet_bounds(2)] acc_add_sextet [OF sextet_bounds(4)]
  by (rule bit_eqI) (auto simp add: bit_simps Suc_Suc_diff2 dest: bit_imp_le_length)

lemma dec_byte2_last:
  "ucast (drop_bit 2 (push_bit 6 (push_bit 6 (acc::uint) +
        (push_bit 4 (take_bit 2 (ucast (a::byte))) OR drop_bit 4 (ucast (b::byte)))) +
      push_bit 2 (take_bit 4 (ucast b))) AND 0xFF) = b"
  unfolding and_255 acc_add_sextet [OF sextet_bounds(2)] acc_add_sextet [OF sextet_bounds(5)]
  by (rule bit_eqI) (auto simp add: bit_simps Suc_Suc_diff2 dest: bit_imp_le_length)

lemma dec_byte3:
  "ucast ((push_bit 6 (push_bit 6 (acc::uint) +
        (push_bit 2 (take_bit 4 (ucast (b::byte))) OR drop_bit 6 (ucast (c::byte)))) +
      take_bit 6 (ucast c)) AND 0xFF) = c"
  unfolding and_255 acc_add_sextet [OF sextet_bounds(4)] acc_add_sextet [OF sextet_bounds(6)]
  by (rule bit_eqI) (auto simp add: bit_simps Suc_Suc_diff2 dest: bit_imp_le_length)

text \<open>The bits left in the accumulator of the decoder after a last group are zero.\<close>

lemma dec_left1:
  "(push_bit 6 (acc::uint) + push_bit 4 (take_bit 2 (ucast (a::byte)))) AND 15 = 0"
proof -
  have m: "15 = (mask 4 :: uint)"
    by (simp add: mask_numeral)
  show ?thesis
    unfolding m acc_add_sextet [OF sextet_bounds(3)]
    by (rule bit_eqI) (auto simp add: bit_simps)
qed

lemma dec_left2:
  "(push_bit 6 (acc::uint) + push_bit 2 (take_bit 4 (ucast (b::byte)))) AND 3 = 0"
proof -
  have m: "3 = (mask 2 :: uint)"
    by (simp add: mask_numeral)
  show ?thesis
    unfolding m acc_add_sextet [OF sextet_bounds(5)]
    by (rule bit_eqI) (auto simp add: bit_simps)
qed

lemma bin2base64_emit_steps:
  "bin2base64_emit acc 8 b64 = (2, b64 @ [b64_byte_to_char (drop_bit 2 acc AND 0x3F)])"
  "bin2base64_emit acc 10 b64 = (4, b64 @ [b64_byte_to_char (drop_bit 4 acc AND 0x3F)])"
  "bin2base64_emit acc 12 b64 =
     (0, b64 @ [b64_byte_to_char (drop_bit 6 acc AND 0x3F), b64_byte_to_char (acc AND 0x3F)])"
  by (simp_all add: bin2base64_emit.simps)

lemma bin2base64_loop_sextets:
  "bin2base64_loop bs acc 0 b64 = (acc', acc_len, b64') \<Longrightarrow>
   (if acc_len > 0 then b64' @ [b64_byte_to_char (push_bit (6 - acc_len) acc' AND 0x3F)] else b64') =
     b64 @ map b64_byte_to_char (base64_sextets bs)"
proof (induction bs arbitrary: acc b64 rule: base64_sextets.induct)
  case 1
  then show ?case by simp
next
  case (2 a)
  then show ?case
    by (auto simp add: bin2base64_emit_steps enc_sextet1 enc_last1)
next
  case (3 a b)
  then show ?case
    by (auto simp add: bin2base64_emit_steps enc_sextet1 enc_sextet2 enc_last2)
next
  case (4 a b c bs)
  let ?acc = "push_bit 8 (push_bit 8 (push_bit 8 acc + ucast a) + ucast b) + ucast c"
  from "4.prems" have "bin2base64_loop bs ?acc 0
      (b64 @ map b64_byte_to_char
         [drop_bit 2 (ucast a), push_bit 4 (take_bit 2 (ucast a)) OR drop_bit 4 (ucast b),
          push_bit 2 (take_bit 4 (ucast b)) OR drop_bit 6 (ucast c), take_bit 6 (ucast c)]) =
      (acc', acc_len, b64')"
    by (simp add: bin2base64_emit_steps enc_sextet1 enc_sextet2 enc_sextet3 enc_sextet4)
  from "4.IH" [OF this] show ?case by simp
qed

lemma base64_sextets_length:
  "length (base64_sextets bs) \<le> 4 * ((length bs + 2) div 3) \<and>
   4 * ((length bs + 2) div 3) - length (base64_sextets bs) = (3 - length bs mod 3) mod 3"
proof (induction bs rule: base64_sextets.induct)
  case (4 a b c bs)
  have d: "(length (a # b # c # bs) + 2) div 3 = Suc ((length bs + 2) div 3)"
    using div_add_self1 [of 3 "length bs + 2"] by simp
  have m: "length (a # b # c # bs) mod 3 = length bs mod 3"
    using mod_add_self1 [of 3 "length bs"] by simp
  from 4 show ?case unfolding d m by simp
qed simp_all

lemma bin2base64_text_sextets:
  "bin2base64_text bs b64_len =
     map b64_byte_to_char (base64_sextets bs) @
     replicate (b64_len - length (base64_sextets bs)) CHR ''=''"
proof -
  obtain acc acc_len b64 where l: "bin2base64_loop bs 0 0 [] = (acc, acc_len, b64)"
    by (cases "bin2base64_loop bs 0 0 []") auto
  from bin2base64_loop_sextets [OF l] show ?thesis
    by (simp add: bin2base64_text_def l Let_def split: if_splits)
qed

lemma sextet_decodes:
  assumes "q < 64"
  shows "b64_char_to_byte (b64_byte_to_char q) = q" "q \<noteq> 0xFF"
  using b64_alphabet(3) [OF assms] assms by auto

lemma base642bin_loop_padding:
  "base642bin_loop bin_maxlen (replicate k CHR ''='') acc acc_len bin =
     (0, acc, acc_len, bin, replicate k CHR ''='')"
  by (cases k) (simp_all add: b64_char_to_byte_nat)

lemma base642bin_loop_sextets:
  "length bin + length bs \<le> bin_maxlen \<Longrightarrow>
   \<exists>acc'. base642bin_loop bin_maxlen
            (map b64_byte_to_char (base64_sextets bs) @ replicate k CHR ''='') acc 0 bin =
          (0, acc', 2 * ((3 - length bs mod 3) mod 3), bin @ bs, replicate k CHR ''='') \<and>
        acc' AND (push_bit (2 * ((3 - length bs mod 3) mod 3)) 1 - 1) = 0"
proof (induction bs arbitrary: acc bin rule: base64_sextets.induct)
  case 1
  then show ?case
    by (simp add: base642bin_loop_padding)
next
  case (2 a)
  then show ?case
    by (simp add: base642bin_loop_padding sextet_decodes [OF sextet_bounds(1)]
        sextet_decodes [OF sextet_bounds(3)] dec_byte1_last dec_left1 Let_def)
next
  case (3 a b)
  then show ?case
    by (simp add: base642bin_loop_padding sextet_decodes [OF sextet_bounds(1)]
        sextet_decodes [OF sextet_bounds(2)] sextet_decodes [OF sextet_bounds(5)]
        dec_byte1 dec_byte2_last dec_left2 Let_def)
next
  case (4 a b c bs)
  let ?acc = "push_bit 6 (push_bit 6 (push_bit 6 (push_bit 6 acc + drop_bit 2 (ucast a)) +
      (push_bit 4 (take_bit 2 (ucast a)) OR drop_bit 4 (ucast b))) +
      (push_bit 2 (take_bit 4 (ucast b)) OR drop_bit 6 (ucast c))) + take_bit 6 (ucast c)"
  from "4.prems" have l: "length (bin @ [a, b, c]) + length bs \<le> bin_maxlen"
    by simp
  have m: "length (a # b # c # bs) mod 3 = length bs mod 3"
    using mod_add_self1 [of 3 "length bs"] by simp
  have "base642bin_loop bin_maxlen
          (map b64_byte_to_char (base64_sextets (a # b # c # bs)) @ replicate k CHR ''='') acc 0 bin =
        base642bin_loop bin_maxlen
          (map b64_byte_to_char (base64_sextets bs) @ replicate k CHR ''='') ?acc 0 (bin @ [a, b, c])"
    using "4.prems"
    by (simp add: sextet_decodes [OF sextet_bounds(1)] sextet_decodes [OF sextet_bounds(2)]
        sextet_decodes [OF sextet_bounds(4)] sextet_decodes [OF sextet_bounds(6)]
        dec_byte1 dec_byte2 dec_byte3 Let_def)
  with "4.IH" [OF l, of ?acc] show ?case
    unfolding m by simp
qed

lemma skip_padding_all: "skip_padding (replicate k CHR ''='') k = (0, [])"
  by (induction k) simp_all

lemma sodium_base642bin_text:
  assumes "length bs \<le> bin_maxlen"
  shows "sodium_base642bin bin bin_maxlen
           (bin2base64_text bs (4 * ((length bs + 2) div 3)) @ rest)
           (4 * ((length bs + 2) div 3)) =
         (0, store_bytes bin bs, length bs)"
proof -
  let ?k = "(3 - length bs mod 3) mod 3"
  let ?text = "map b64_byte_to_char (base64_sextets bs) @ replicate ?k CHR ''=''"
  have t: "bin2base64_text bs (4 * ((length bs + 2) div 3)) = ?text"
    using base64_sextets_length [of bs] by (simp add: bin2base64_text_sextets)
  have l: "length ?text = 4 * ((length bs + 2) div 3)"
  proof -
    from base64_sextets_length [of bs] have
      le: "length (base64_sextets bs) \<le> 4 * ((length bs + 2) div 3)" and
      eq: "4 * ((length bs + 2) div 3) - length (base64_sextets bs) = ?k"
      by blast+
    have "length ?text =
        length (base64_sextets bs) + (4 * ((length bs + 2) div 3) - length (base64_sextets bs))"
      unfolding eq by simp
    also have "\<dots> = 4 * ((length bs + 2) div 3)"
      using le by (rule le_add_diff_inverse)
    finally show ?thesis .
  qed
  have tk: "take (4 * ((length bs + 2) div 3)) (?text @ rest) = ?text"
    using l by simp
  from assms have "length ([] :: byte list) + length bs \<le> bin_maxlen"
    by simp
  from base642bin_loop_sextets [OF this, of ?k 0] obtain acc' where
    loop: "base642bin_loop bin_maxlen ?text 0 0 [] = (0, acc', 2 * ?k, bs, replicate ?k CHR ''='')"
    and zero: "acc' AND (push_bit (2 * ?k) 1 - 1) = 0"
    by auto
  have k: "\<not> 4 < 2 * ?k"
    by (simp add: not_less)
  show ?thesis
    unfolding sodium_base642bin_def t tk loop
    using zero k by (simp add: skip_padding_all)
qed

section \<open>\<^verbatim>\<open>encrypt_secret\<close>, stage by stage\<close>

lemma take_strlen: "take (strlen s) s = takeWhile (\<lambda>c. c \<noteq> CHR 0x00) s"
  unfolding strlen_def by (induction s) simp_all

lemma encrypt_secret_null:
  "kb = None \<or> pt = None \<or> out = None \<or> cap = None \<Longrightarrow>
   encrypt_secret seal kb pt out cap = Inr (- 1, out, cap)"
  by (auto simp add: encrypt_secret_def split: option.splits)

lemma encrypt_secret_eq:
  "encrypt_secret seal (Some kb) (Some pt) (Some out) (Some cap) =
     (let d = sodium_base642bin (replicate crypto_box_PUBLICKEYBYTES 0) crypto_box_PUBLICKEYBYTES kb (strlen kb);
          s = seal (map of_char (takeWhile (\<lambda>c. c \<noteq> CHR 0x00) pt)) (fst (snd d));
          n = crypto_box_SEALBYTES + strlen pt;
          need = 4 * ((n + 2) div 3) + 1
      in if fst d \<noteq> 0 then Inr (- 2, Some out, Some cap)
         else if fst s \<noteq> 0 then Inr (- 3, Some out, Some cap)
         else if cap < need then Inr (- 4, Some out, Some need)
         else if length out < cap then Inl Overrun
         else Inr (0, Some (bin2base64_text (store_bytes (replicate n 0) (snd s)) (need - 1) @
                            replicate (cap - (need - 1)) CHR 0x00 @ drop cap out),
                      Some (need - 1)))"
proof -
  obtain r pk dl where d: "sodium_base642bin (replicate crypto_box_PUBLICKEYBYTES 0) crypto_box_PUBLICKEYBYTES kb (strlen kb) = (r, pk, dl)"
    by (cases "sodium_base642bin (replicate crypto_box_PUBLICKEYBYTES 0) crypto_box_PUBLICKEYBYTES kb (strlen kb)") auto
  obtain r2 w where s: "seal (map of_char (takeWhile (\<lambda>c. c \<noteq> CHR 0x00) pt)) pk = (r2, w)"
    by (cases "seal (map of_char (takeWhile (\<lambda>c. c \<noteq> CHR 0x00) pt)) pk") auto
  let ?n = "crypto_box_SEALBYTES + strlen pt"
  let ?c = "store_bytes (replicate ?n (0::byte)) w"
  have lc: "length ?c = ?n" by (simp add: store_bytes_def)
  let ?text = "bin2base64_text ?c (4 * ((?n + 2) div 3))"
  have sl: "strlen (?text @ replicate (cap - 4 * ((?n + 2) div 3)) CHR 0x00 @ drop cap out) = 4 * ((?n + 2) div 3)"
    if "4 * ((?n + 2) div 3) < cap"
  proof -
    from that obtain k where "cap - 4 * ((?n + 2) div 3) = Suc k"
      by (cases "cap - 4 * ((?n + 2) div 3)") auto
    then have "strlen (?text @ replicate (cap - 4 * ((?n + 2) div 3)) CHR 0x00 @ drop cap out)
       = strlen (?text @ CHR 0x00 # (replicate k CHR 0x00 @ drop cap out))" by simp
    also have "\<dots> = length ?text" by (rule strlen_text [OF bin2base64_text_chars])
    also have "\<dots> = 4 * ((?n + 2) div 3)" using bin2base64_text_length [of ?c] lc by simp
    finally show ?thesis .
  qed
  show ?thesis
    unfolding encrypt_secret_def using sl
    by (simp add: d s Let_def take_strlen ENCODED_LEN_ORIGINAL sodium_bin2base64_eq [OF lc] not_less)
qed

lemma encrypt_secret_stages:
  "encrypt_secret crypto_box_seal (Some key_b64) (Some ptext) (Some out) (Some cap) =
     (if fst (decoded_key key_b64) \<noteq> 0 then Inr (- 2, Some out, Some cap)
      else if fst (sealed crypto_box_seal key_b64 ptext) \<noteq> 0 then Inr (- 3, Some out, Some cap)
      else if cap < required_len ptext then Inr (- 4, Some out, Some (required_len ptext))
      else if length out < cap then Inl Overrun
      else Inr (0, Some (bin2base64_text (ciphertext_of crypto_box_seal key_b64 ptext)
                           (required_len ptext - 1) @
                         replicate (cap - (required_len ptext - 1)) CHR 0x00 @ drop cap out),
                   Some (required_len ptext - 1)))"
  by (simp add: encrypt_secret_eq Let_def ENCODED_LEN_ORIGINAL take_strlen)

lemma encrypt_secret_success:
  assumes "encrypt_secret crypto_box_seal public_key_b64 plaintext output output_len =
             Inr (0, output', output_len')"
  obtains key_b64 ptext out cap where
    "public_key_b64 = Some key_b64" "plaintext = Some ptext" "output = Some out"
    "output_len = Some cap"
    "fst (decoded_key key_b64) = 0" "fst (sealed crypto_box_seal key_b64 ptext) = 0"
    "required_len ptext \<le> cap" "cap \<le> length out"
    "output' = Some (bin2base64_text (ciphertext_of crypto_box_seal key_b64 ptext)
                       (required_len ptext - 1) @
                     replicate (cap - (required_len ptext - 1)) CHR 0x00 @ drop cap out)"
    "output_len' = Some (required_len ptext - 1)"
proof (cases "public_key_b64 = None \<or> plaintext = None \<or> output = None \<or> output_len = None")
  case True
  from encrypt_secret_null [OF True] assms show ?thesis by simp
next
  case False
  then obtain kb pt out cap where
    a: "public_key_b64 = Some kb" "plaintext = Some pt" "output = Some out" "output_len = Some cap"
    by auto
  from assms have
    "fst (decoded_key kb) = 0 \<and> fst (sealed crypto_box_seal kb pt) = 0 \<and>
     required_len pt \<le> cap \<and> cap \<le> length out \<and>
     output' = Some (bin2base64_text (ciphertext_of crypto_box_seal kb pt) (required_len pt - 1) @
                     replicate (cap - (required_len pt - 1)) CHR 0x00 @ drop cap out) \<and>
     output_len' = Some (required_len pt - 1)"
    unfolding a encrypt_secret_stages by (simp split: if_splits)
  with a that show ?thesis by blast
qed

lemma ciphertext_of_length:
  "length (ciphertext_of crypto_box_seal key_b64 ptext) = crypto_box_SEALBYTES + strlen ptext"
  by (simp add: store_bytes_def)

lemma sealed_text:
  "length (bin2base64_text (ciphertext_of crypto_box_seal key_b64 ptext) (required_len ptext - 1)) =
     required_len ptext - 1"
  "text_chars (bin2base64_text (ciphertext_of crypto_box_seal key_b64 ptext) n)"
  using bin2base64_text_length [of "ciphertext_of crypto_box_seal key_b64 ptext"]
  by (simp_all add: ENCODED_LEN_ORIGINAL ciphertext_of_length bin2base64_text_chars)

lemma replicate_nul:
  "0 < k \<Longrightarrow> replicate k CHR 0x00 @ r = CHR 0x00 # replicate (k - 1) CHR 0x00 @ r"
  by (cases k) simp_all

lemma sealed_text_decodes:
  assumes "encrypt_secret crypto_box_seal (Some key_b64) (Some ptext) (Some out) (Some cap) =
             Inr (0, Some out', output_len')"
      and "length (ciphertext_of crypto_box_seal key_b64 ptext) \<le> bin_maxlen"
  shows "sodium_base642bin bin bin_maxlen out' (strlen out') =
           (0, store_bytes bin (ciphertext_of crypto_box_seal key_b64 ptext),
            length (ciphertext_of crypto_box_seal key_b64 ptext))"
proof -
  let ?c = "ciphertext_of crypto_box_seal key_b64 ptext"
  let ?n = "required_len ptext"
  from assms(1) obtain
    r: "?n \<le> cap" and
    o: "out' = bin2base64_text ?c (?n - 1) @ replicate (cap - (?n - 1)) CHR 0x00 @ drop cap out"
    by (rule encrypt_secret_success) simp_all
  have n: "?n - 1 = 4 * ((length ?c + 2) div 3)"
    by (simp add: ENCODED_LEN_ORIGINAL ciphertext_of_length)
  have "0 < ?n"
    by (simp add: ENCODED_LEN_ORIGINAL)
  with r have "0 < cap - (?n - 1)" by simp
  from replicate_nul [OF this] o obtain rest where
    o': "out' = bin2base64_text ?c (?n - 1) @ CHR 0x00 # rest"
    by simp
  have l: "strlen out' = ?n - 1"
    unfolding o' by (simp only: strlen_text [OF sealed_text(2)] sealed_text(1))
  show ?thesis
    unfolding l unfolding o' n by (rule sodium_base642bin_text [OF assms(2)])
qed

subsection \<open>The example key and plaintext\<close>

lemma key_decodes:
  "decoded_key ''Zm9vYmFyZm9vYmFyZm9vYmFyZm9vYmFyZm9vYmFyMDA='' =
     (0, map of_char ''foobarfoobarfoobarfoobarfoobar00'', 32)"
  by (simp add: sodium_base642bin_def b64_char_to_byte_nat Let_def store_bytes_def strlen_def
      crypto_box_PUBLICKEYBYTES_def)

lemma required_len_eq: "required_len pt = 4 * ((crypto_box_SEALBYTES + strlen pt + 2) div 3) + 1"
  by (simp add: ENCODED_LEN_ORIGINAL)

lemma strlen_hello: "strlen ''hello'' = 5" "strlen '''' = 0"
  by (simp_all add: strlen_def)

lemma required_len_hello: "required_len ''hello'' = 73"
  by (simp add: ENCODED_LEN_ORIGINAL strlen_hello crypto_box_SEALBYTES_def)

lemma seal_stub_ok: "fst (seal_stub m pk) = 0"
  by (simp add: seal_stub_def)

lemma replicate_16: "replicate 16 x = [x, x, x, x, x, x, x, x, x, x, x, x, x, x, x, x]"
  by (simp add: eval_nat_numeral)

lemma hello_text:
  "bin2base64_text
     (map of_char ''foobarfoobarfoobarfoobarfoobar00'' @ replicate 16 0 @ map of_char ''hello'') 72 =
   ''Zm9vYmFyZm9vYmFyZm9vYmFyZm9vYmFyZm9vYmFyMDAAAAAAAAAAAAAAAAAAAAAAaGVsbG8=''"
  by (simp add: bin2base64_text_sextets b64_byte_to_char_def char_of_eq_iff replicate_16)

lemma hello_sealed:
  "encrypt_secret seal_stub (Some ''Zm9vYmFyZm9vYmFyZm9vYmFyZm9vYmFyZm9vYmFyMDA='') (Some ''hello'')
     (Some (replicate 80 CHR ''x'')) (Some 80) =
   Inr (0, Some (''Zm9vYmFyZm9vYmFyZm9vYmFyZm9vYmFyZm9vYmFyMDAAAAAAAAAAAAAAAAAAAAAAaGVsbG8='' @
                 replicate 8 CHR 0x00), Some 72)"
proof -
  have c: "ciphertext_of seal_stub ''Zm9vYmFyZm9vYmFyZm9vYmFyZm9vYmFyZm9vYmFyMDA='' ''hello'' =
      map of_char ''foobarfoobarfoobarfoobarfoobar00'' @ replicate 16 0 @ map of_char ''hello''"
    unfolding strlen_hello
    by (simp add: key_decodes seal_stub_def store_bytes_def crypto_box_SEALBYTES_def)
  have t: "bin2base64_text
      (ciphertext_of seal_stub ''Zm9vYmFyZm9vYmFyZm9vYmFyZm9vYmFyZm9vYmFyMDA='' ''hello'') 72 =
    ''Zm9vYmFyZm9vYmFyZm9vYmFyZm9vYmFyZm9vYmFyMDAAAAAAAAAAAAAAAAAAAAAAaGVsbG8=''"
    unfolding c by (rule hello_text)
  have ok: "fst (decoded_key ''Zm9vYmFyZm9vYmFyZm9vYmFyZm9vYmFyZm9vYmFyMDA='') = 0"
    by (simp add: key_decodes)
  have seals: "fst (sealed seal_stub ''Zm9vYmFyZm9vYmFyZm9vYmFyZm9vYmFyZm9vYmFyMDA='' ''hello'') = 0"
    by (simp add: seal_stub_def)
  have "encrypt_secret seal_stub (Some ''Zm9vYmFyZm9vYmFyZm9vYmFyZm9vYmFyZm9vYmFyMDA='')
      (Some ''hello'') (Some (replicate 80 CHR ''x'')) (Some 80) =
    Inr (0, Some (bin2base64_text
        (ciphertext_of seal_stub ''Zm9vYmFyZm9vYmFyZm9vYmFyZm9vYmFyZm9vYmFyMDA='' ''hello'') 72 @
        replicate 8 CHR 0x00), Some 72)"
    using ok seals by (simp add: encrypt_secret_stages required_len_hello)
  then show ?thesis
    by (simp only: t)
qed

lemma replicate_numeral_Cons: "replicate (numeral k) x = x # replicate (pred_numeral k) x"
  by (simp add: numeral_eq_Suc)

lemma empty_sealed:
  "encrypt_secret seal_stub (Some ''Zm9vYmFyZm9vYmFyZm9vYmFyZm9vYmFyZm9vYmFyMDA='') (Some '''')
     (Some (replicate 65 CHR ''x'')) (Some 65) =
   Inr (0, Some (''Zm9vYmFyZm9vYmFyZm9vYmFyZm9vYmFyZm9vYmFyMDAAAAAAAAAAAAAAAAAAAAAA'' @ [CHR 0x00]),
        Some 64)"
proof -
  let ?key = "''Zm9vYmFyZm9vYmFyZm9vYmFyZm9vYmFyZm9vYmFyMDA=''"
  have c: "ciphertext_of seal_stub ?key '''' =
      map of_char ''foobarfoobarfoobarfoobarfoobar00'' @ replicate 16 0"
    unfolding strlen_hello
    by (simp add: key_decodes seal_stub_def store_bytes_def crypto_box_SEALBYTES_def)
  have t: "bin2base64_text (ciphertext_of seal_stub ?key '''') 64 =
    ''Zm9vYmFyZm9vYmFyZm9vYmFyZm9vYmFyZm9vYmFyMDAAAAAAAAAAAAAAAAAAAAAA''"
    unfolding c
    by (simp add: bin2base64_text_sextets b64_byte_to_char_def char_of_eq_iff replicate_16)
  have r: "required_len '''' = 65"
    by (simp add: ENCODED_LEN_ORIGINAL strlen_hello crypto_box_SEALBYTES_def)
  have ok: "fst (decoded_key ?key) = 0"
    by (simp add: key_decodes)
  have seals: "fst (sealed seal_stub ?key '''') = 0"
    by (simp add: seal_stub_def)
  have "encrypt_secret seal_stub (Some ?key) (Some '''') (Some (replicate 65 CHR ''x'')) (Some 65) =
    Inr (0, Some (bin2base64_text (ciphertext_of seal_stub ?key '''') 64 @ [CHR 0x00]), Some 64)"
    using ok seals by (simp add: encrypt_secret_stages r)
  then show ?thesis
    by (simp only: t)
qed

lemma short_key_decodes:
  "decoded_key ''Zm9vYmFy'' = (0, map of_char ''foobar'' @ replicate 26 0, 6)"
  by (simp add: sodium_base642bin_def b64_char_to_byte_nat Let_def store_bytes_def strlen_def
      crypto_box_PUBLICKEYBYTES_def)

lemma short_key_sealed:
  "encrypt_secret seal_stub (Some ''Zm9vYmFy'') (Some ''hello'')
     (Some (replicate 80 CHR ''x'')) (Some 80) =
   Inr (0, Some (''Zm9vYmFyAAAAAAAAAAAAAAAAAAAAAAAAAAAAAAAAAAAAAAAAAAAAAAAAAAAAAAAAaGVsbG8='' @
                 replicate 8 CHR 0x00), Some 72)"
proof -
  have c: "ciphertext_of seal_stub ''Zm9vYmFy'' ''hello'' =
      map of_char ''foobar'' @ replicate 26 0 @ replicate 16 0 @ map of_char ''hello''"
    unfolding strlen_hello
    by (simp add: short_key_decodes seal_stub_def store_bytes_def crypto_box_SEALBYTES_def)
  have t: "bin2base64_text (ciphertext_of seal_stub ''Zm9vYmFy'' ''hello'') 72 =
    ''Zm9vYmFyAAAAAAAAAAAAAAAAAAAAAAAAAAAAAAAAAAAAAAAAAAAAAAAAAAAAAAAAaGVsbG8=''"
    unfolding c
    by (simp add: bin2base64_text_sextets b64_byte_to_char_def char_of_eq_iff
        replicate_numeral_Cons)
  have ok: "fst (decoded_key ''Zm9vYmFy'') = 0"
    by (simp add: short_key_decodes)
  have seals: "fst (sealed seal_stub ''Zm9vYmFy'' ''hello'') = 0"
    by (simp add: seal_stub_def)
  have "encrypt_secret seal_stub (Some ''Zm9vYmFy'') (Some ''hello'')
      (Some (replicate 80 CHR ''x'')) (Some 80) =
    Inr (0, Some (bin2base64_text (ciphertext_of seal_stub ''Zm9vYmFy'' ''hello'') 72 @
        replicate 8 CHR 0x00), Some 72)"
    using ok seals by (simp add: encrypt_secret_stages required_len_hello)
  then show ?thesis
    by (simp only: t)
qed

lemma strlen_prefix:
  assumes "CHR 0x00 \<notin> set p"
  shows "strlen (p @ CHR 0x00 # rest) = length p" "strlen p = length p"
    "takeWhile (\<lambda>c. c \<noteq> CHR 0x00) (p @ CHR 0x00 # rest) = p"
    "takeWhile (\<lambda>c. c \<noteq> CHR 0x00) p = p"
proof -
  from assms have a: "\<forall>c \<in> set p. c \<noteq> CHR 0x00"
    by auto
  then show "takeWhile (\<lambda>c. c \<noteq> CHR 0x00) (p @ CHR 0x00 # rest) = p"
    by (simp add: takeWhile_append2)
  then show "strlen (p @ CHR 0x00 # rest) = length p"
    by (simp only: strlen_def)
  from a show "takeWhile (\<lambda>c. c \<noteq> CHR 0x00) p = p"
    by (simp add: takeWhile_eq_all_conv)
  then show "strlen p = length p"
    by (simp only: strlen_def)
qed

lemma encrypt_secret_prefix:
  "encrypt_secret crypto_box_seal public_key_b64 (Some ptext) output output_len =
   encrypt_secret crypto_box_seal public_key_b64
     (Some (takeWhile (\<lambda>c. c \<noteq> CHR 0x00) ptext)) output output_len"
proof (cases "public_key_b64 = None \<or> output = None \<or> output_len = None")
  case True
  then show ?thesis
    by (simp add: encrypt_secret_null)
next
  case False
  then obtain kb out cap where
    a: "public_key_b64 = Some kb" "output = Some out" "output_len = Some cap"
    by auto
  have s: "strlen (takeWhile (\<lambda>c. c \<noteq> CHR 0x00) ptext) = strlen ptext"
    by (simp add: strlen_def)
  show ?thesis
    unfolding a encrypt_secret_eq s by simp
qed

lemma replicate_2: "replicate 2 x = [x, x]"
  by (simp add: numeral_2_eq_2)

lemma a_text:
  "bin2base64_text
     (map of_char ''foobarfoobarfoobarfoobarfoobar00'' @ replicate 16 0 @ map of_char ''a'') 68 =
   ''Zm9vYmFyZm9vYmFyZm9vYmFyZm9vYmFyZm9vYmFyMDAAAAAAAAAAAAAAAAAAAAAAYQ==''"
  by (simp add: bin2base64_text_sextets b64_byte_to_char_def char_of_eq_iff replicate_16
      replicate_2)

lemma a_sealed:
  "encrypt_secret seal_stub (Some ''Zm9vYmFyZm9vYmFyZm9vYmFyZm9vYmFyZm9vYmFyMDA='') (Some ''a'')
     (Some (replicate 80 CHR ''x'')) (Some 80) =
   Inr (0, Some (''Zm9vYmFyZm9vYmFyZm9vYmFyZm9vYmFyZm9vYmFyMDAAAAAAAAAAAAAAAAAAAAAAYQ=='' @
                 replicate 12 CHR 0x00), Some 68)"
proof -
  let ?key = "''Zm9vYmFyZm9vYmFyZm9vYmFyZm9vYmFyZm9vYmFyMDA=''"
  have s: "strlen ''a'' = 1"
    by (simp add: strlen_def)
  have c: "ciphertext_of seal_stub ?key ''a'' =
      map of_char ''foobarfoobarfoobarfoobarfoobar00'' @ replicate 16 0 @ map of_char ''a''"
    unfolding s
    by (simp add: key_decodes seal_stub_def store_bytes_def crypto_box_SEALBYTES_def)
  have t: "bin2base64_text (ciphertext_of seal_stub ?key ''a'') 68 =
    ''Zm9vYmFyZm9vYmFyZm9vYmFyZm9vYmFyZm9vYmFyMDAAAAAAAAAAAAAAAAAAAAAAYQ==''"
    unfolding c by (rule a_text)
  have r: "required_len ''a'' = 69"
    by (simp add: ENCODED_LEN_ORIGINAL s crypto_box_SEALBYTES_def)
  have ok: "fst (decoded_key ?key) = 0"
    by (simp add: key_decodes)
  have seals: "fst (sealed seal_stub ?key ''a'') = 0"
    by (simp add: seal_stub_def)
  have "encrypt_secret seal_stub (Some ?key) (Some ''a'') (Some (replicate 80 CHR ''x'')) (Some 80) =
    Inr (0, Some (bin2base64_text (ciphertext_of seal_stub ?key ''a'') 68 @
                  replicate 12 CHR 0x00), Some 68)"
    using ok seals by (simp add: encrypt_secret_stages r)
  then show ?thesis
    by (simp only: t)
qed

lemma high_byte_sextet:
  "128 \<le> (of_char ch :: nat) \<Longrightarrow> b64_char_to_byte ch = 63"
  by (simp add: b64_char_to_byte_nat)

lemma high_byte_key_decodes:
  "decoded_key [CHR ''Z'', CHR ''m'', CHR ''9'', CHR ''v'', CHR 0xE9, CHR ''m'', CHR ''F'', CHR ''y''] =
     decoded_key ''Zm9v/mFy'' \<and>
   fst (decoded_key ''Zm9v/mFy'') = 0 \<and>
   fst (decoded_key ''Zm9v*mFy'') = - 1"
  by (simp add: sodium_base642bin_def b64_char_to_byte_nat Let_def store_bytes_def strlen_def
      crypto_box_PUBLICKEYBYTES_def)

section \<open>Claims\<close>

text \<open>
  C1: a key whose decoded length is not \<^verbatim>\<open>crypto_box_PUBLICKEYBYTES\<close> must fail with
  InvalidKeyEncoding (-2). The code passes the size of the key vector to
  \<^verbatim>\<open>sodium_base642bin\<close> as \<^verbatim>\<open>bin_maxlen\<close>, an upper bound, and never reads the
  \<^verbatim>\<open>decoded_len\<close> that the decoder has set: the base64 text of the six bytes \<open>foobar\<close>
  decodes with status 0 and length 6, the key vector is those six bytes and twenty-six
  zero bytes, and the call goes on to seal with it and returns Success.
\<close>

theorem short_key_accepted:
  "decoded_key ''Zm9vYmFy'' = (0, map of_char ''foobar'' @ replicate 26 0, 6) \<and>
   encrypt_secret seal_stub (Some ''Zm9vYmFy'') (Some ''hello'')
      (Some (replicate 80 CHR ''x'')) (Some 80) =
     Inr (0, Some (''Zm9vYmFyAAAAAAAAAAAAAAAAAAAAAAAAAAAAAAAAAAAAAAAAAAAAAAAAAAAAAAAAaGVsbG8='' @
                   replicate 8 CHR 0x00), Some 72)"
  using short_key_decodes short_key_sealed by (rule conjI)

text \<open>
  C2, as the specification states it, for every plaintext: a plaintext with a zero byte does
  not come back. The three bytes \<open>a\<close>, 0, \<open>b\<close> are sealed as the one byte \<open>a\<close>: the text
  that the call writes decodes to a box of \<^verbatim>\<open>crypto_box_SEALBYTES\<close> + 1 bytes, which opens
  to \<open>a\<close>.
\<close>

theorem embedded_zero_not_round_tripped:
  "(case encrypt_secret seal_stub (Some ''Zm9vYmFyZm9vYmFyZm9vYmFyZm9vYmFyZm9vYmFyMDA='')
           (Some [CHR ''a'', CHR 0x00, CHR ''b'']) (Some (replicate 80 CHR ''x'')) (Some 80) of
      Inr (status, Some text, n) \<Rightarrow>
        status = 0 \<and>
        open_stub (fst (snd (sodium_base642bin (replicate 49 0) 49 text (strlen text)))) [] =
          Some (map of_char ''a'')
    | _ \<Rightarrow> False)"
proof -
  let ?key = "''Zm9vYmFyZm9vYmFyZm9vYmFyZm9vYmFyZm9vYmFyMDA=''"
  let ?p = "[CHR ''a'', CHR 0x00, CHR ''b'']"
  have s: "strlen ?p = 1"
    by (simp add: strlen_def)
  have c: "ciphertext_of seal_stub ?key ?p =
      map of_char ''foobarfoobarfoobarfoobarfoobar00'' @ replicate 16 0 @ map of_char ''a''"
    unfolding s by (simp add: key_decodes seal_stub_def store_bytes_def crypto_box_SEALBYTES_def)
  have r: "required_len ?p = 69"
    unfolding s by (simp add: ENCODED_LEN_ORIGINAL crypto_box_SEALBYTES_def)
  obtain out' where h: "encrypt_secret seal_stub (Some ?key) (Some ?p)
       (Some (replicate 80 CHR ''x'')) (Some 80) = Inr (0, Some out', Some 68)"
    unfolding encrypt_secret_stages r by (simp add: key_decodes seal_stub_def)
  have "length (ciphertext_of seal_stub ?key ?p) \<le> 49"
    unfolding c by simp
  from sealed_text_decodes [OF h this, of "replicate 49 0"]
  have "sodium_base642bin (replicate 49 0) 49 out' (strlen out') =
      (0, map of_char ''foobarfoobarfoobarfoobarfoobar00'' @ replicate 16 0 @ map of_char ''a'', 49)"
    unfolding c by (simp add: store_bytes_def)
  then show ?thesis
    unfolding h by (simp add: open_stub_def crypto_box_SEALBYTES_def)
qed

text \<open>
  C2, amended: for every plaintext without a zero byte, a key text that decodes to the
  public key, and a key pair for which the reference opens what the primitive seals, the
  text of a successful call decodes to the cipher text that the primitive has written for
  the plaintext and the public key, and the reference opens it to the plaintext.
\<close>

theorem sealed_text_opens:
  fixes crypto_box_seal_open :: box_open
  assumes "decoded_key key_b64 = (0, pk, decoded_len)"
      and "CHR 0x00 \<notin> set ptext"
      and "\<forall>m. length (snd (crypto_box_seal m pk)) = crypto_box_SEALBYTES + length m"
      and "\<forall>m c. crypto_box_seal m pk = (0, c) \<longrightarrow> crypto_box_seal_open c sk = Some m"
      and "encrypt_secret crypto_box_seal (Some key_b64) (Some ptext) (Some out) (Some cap) =
             Inr (0, Some out', output_len')"
  shows "\<exists>c. crypto_box_seal (map of_char ptext) pk = (0, c) \<and>
           sodium_base642bin (replicate (length c) 0) (length c) out' (strlen out') =
             (0, c, length c) \<and>
           crypto_box_seal_open c sk = Some (map of_char ptext)"
proof -
  from assms(2) have s: "takeWhile (\<lambda>c. c \<noteq> CHR 0x00) ptext = ptext"
    by (auto simp add: takeWhile_eq_all_conv)
  have l: "strlen ptext = length ptext" "take (strlen ptext) ptext = ptext"
    unfolding strlen_def s by simp_all
  obtain st c where c: "crypto_box_seal (map of_char ptext) pk = (st, c)"
    by (cases "crypto_box_seal (map of_char ptext) pk") auto
  from assms(5) have "fst (sealed crypto_box_seal key_b64 ptext) = 0"
    by (rule encrypt_secret_success) simp
  with c have st: "st = 0"
    by (simp add: assms(1) l)
  from assms(3) have
    "length (snd (crypto_box_seal (map of_char ptext) pk)) =
       crypto_box_SEALBYTES + length (map of_char ptext :: byte list)"
    by (rule spec)
  then have lc: "length c = crypto_box_SEALBYTES + length ptext"
    unfolding c by simp
  have v: "ciphertext_of crypto_box_seal key_b64 ptext = c"
    by (simp add: assms(1) l c store_bytes_def lc)
  from sealed_text_decodes [OF assms(5), of "length c" "replicate (length c) 0"]
  have "sodium_base642bin (replicate (length c) 0) (length c) out' (strlen out') = (0, c, length c)"
    unfolding v by (simp add: store_bytes_def)
  moreover from assms(4) c st have "crypto_box_seal_open c sk = Some (map of_char ptext)"
    by simp
  ultimately show ?thesis
    using c st by simp
qed

theorem sealed_text_opens_witness:
  "\<exists>out'. encrypt_secret seal_stub (Some ''Zm9vYmFyZm9vYmFyZm9vYmFyZm9vYmFyZm9vYmFyMDA='')
       (Some ''hello'') (Some (replicate 80 CHR ''x'')) (Some 80) = Inr (0, Some out', Some 72) \<and>
     open_stub (fst (snd (sodium_base642bin (replicate 53 0) 53 out' (strlen out')))) [] =
       Some (map of_char ''hello'')"
proof -
  let ?key = "''Zm9vYmFyZm9vYmFyZm9vYmFyZm9vYmFyZm9vYmFyMDA=''"
  let ?pk = "map of_char ''foobarfoobarfoobarfoobarfoobar00'' :: byte list"
  have ok: "fst (decoded_key ?key) = 0"
    by (simp add: key_decodes)
  have seals: "fst (sealed seal_stub ?key ''hello'') = 0"
    by (simp add: seal_stub_def)
  obtain out' where h: "encrypt_secret seal_stub (Some ?key) (Some ''hello'')
       (Some (replicate 80 CHR ''x'')) (Some 80) = Inr (0, Some out', Some 72)"
    using ok seals by (simp add: encrypt_secret_stages required_len_hello)
  have nul: "CHR 0x00 \<notin> set ''hello''"
    by simp
  have len: "\<forall>m. length (snd (seal_stub m ?pk)) = crypto_box_SEALBYTES + length m"
    by (simp add: seal_stub_def crypto_box_SEALBYTES_def)
  have pair: "\<forall>m c. seal_stub m ?pk = (0, c) \<longrightarrow> open_stub c [] = Some m"
    by (auto simp add: seal_stub_def open_stub_def crypto_box_SEALBYTES_def)
  from sealed_text_opens [where crypto_box_seal = seal_stub and crypto_box_seal_open = open_stub
      and sk = "[]" and pk = ?pk and ptext = "''hello''", OF key_decodes nul len pair h] h
  show ?thesis
    by (auto simp add: seal_stub_def)
qed

text \<open>
  C3: for a key that decodes and a primitive that succeeds, a call with capacity 0 returns
  BufferTooSmall (-4), leaves the output region as it was and sets the capacity to the
  required size; a second call with that capacity, on a region of at least that size,
  returns Success: the region then holds the text, of the required size less one, and its
  terminator.
\<close>

theorem buffer_negotiation:
  assumes "fst (decoded_key key_b64) = 0"
      and "fst (sealed seal1 key_b64 ptext) = 0"
      and "fst (sealed seal2 key_b64 ptext) = 0"
      and "required_len ptext \<le> length out2"
  shows "encrypt_secret seal1 (Some key_b64) (Some ptext) (Some out1) (Some 0) =
           Inr (- 4, Some out1, Some (required_len ptext)) \<and>
         (\<exists>text. encrypt_secret seal2 (Some key_b64) (Some ptext) (Some out2)
                    (Some (required_len ptext)) =
                  Inr (0, Some (text @ CHR 0x00 # drop (required_len ptext) out2),
                       Some (required_len ptext - 1)) \<and>
                text_chars text \<and> length text = required_len ptext - 1)"
proof -
  have pos: "0 < required_len ptext"
    by (simp add: ENCODED_LEN_ORIGINAL)
  then have one: "required_len ptext - (required_len ptext - Suc 0) = Suc 0"
    by simp
  have first: "encrypt_secret seal1 (Some key_b64) (Some ptext) (Some out1) (Some 0) =
           Inr (- 4, Some out1, Some (required_len ptext))"
    using assms(1,2) pos by (simp add: encrypt_secret_stages)
  have second: "encrypt_secret seal2 (Some key_b64) (Some ptext) (Some out2)
      (Some (required_len ptext)) =
    Inr (0, Some (bin2base64_text (ciphertext_of seal2 key_b64 ptext) (required_len ptext - 1) @
                  CHR 0x00 # drop (required_len ptext) out2), Some (required_len ptext - 1))"
    using assms(1,3,4) by (simp add: encrypt_secret_stages one)
  from first second sealed_text [where crypto_box_seal = seal2 and ?key_b64.0 = key_b64 and ptext = ptext] show ?thesis
    by blast
qed

theorem buffer_negotiation_witness:
  "encrypt_secret seal_stub (Some ''Zm9vYmFyZm9vYmFyZm9vYmFyZm9vYmFyZm9vYmFyMDA='') (Some ''hello'')
     (Some '''') (Some 0) = Inr (- 4, Some '''', Some 73) \<and>
   (\<exists>text. encrypt_secret seal_stub (Some ''Zm9vYmFyZm9vYmFyZm9vYmFyZm9vYmFyZm9vYmFyMDA='')
      (Some ''hello'') (Some (replicate 73 CHR ''x'')) (Some 73) =
        Inr (0, Some (text @ [CHR 0x00]), Some 72) \<and> length text = 72)"
proof -
  let ?key = "''Zm9vYmFyZm9vYmFyZm9vYmFyZm9vYmFyZm9vYmFyMDA=''"
  have ok: "fst (decoded_key ?key) = 0"
    by (simp add: key_decodes)
  have seals: "fst (sealed seal_stub ?key ''hello'') = 0"
    by (simp add: seal_stub_def)
  have room: "required_len ''hello'' \<le> length (replicate 73 CHR ''x'')"
    by (simp add: required_len_hello)
  show ?thesis
    using buffer_negotiation [where ?key_b64.0 = ?key and ptext = "''hello''"
        and ?seal1.0 = seal_stub and ?seal2.0 = seal_stub and ?out1.0 = "''''"
        and ?out2.0 = "replicate 73 CHR ''x''"] ok seals room required_len_hello
    by auto
qed

text \<open>
  C4, as the specification states it: a call with an empty plaintext string returns
  InvalidArgument (-1). It does not: the argument check of \<^verbatim>\<open>encrypt_secret\<close> tests the
  four pointers only, and the empty string is sealed like any other. With a buffer of 65
  bytes the call returns Success, and the region holds the text of the 48 bytes that the
  primitive has written, 64 characters, and its terminator.
\<close>

theorem empty_plaintext_not_rejected:
  "encrypt_secret seal_stub (Some ''Zm9vYmFyZm9vYmFyZm9vYmFyZm9vYmFyZm9vYmFyMDA='') (Some '''')
     (Some (replicate 65 CHR ''x'')) (Some 65) =
   Inr (0, Some (''Zm9vYmFyZm9vYmFyZm9vYmFyZm9vYmFyZm9vYmFyMDAAAAAAAAAAAAAAAAAAAAAA'' @ [CHR 0x00]),
        Some 64)"
  by (rule empty_sealed)

text \<open>
  C4, amended: a call with a null key, plaintext, output or capacity pointer returns
  InvalidArgument (-1) whatever the other arguments and the sealing primitive are (neither
  the decoder nor the primitive is reached), and leaves the output region and the capacity
  as they were; a call with four pointers that are not null never returns -1, so an empty
  plaintext is not rejected by the argument check.
\<close>

theorem null_argument_rejected:
  "(public_key_b64 = None \<or> plaintext = None \<or> output = None \<or> output_len = None \<longrightarrow>
      encrypt_secret crypto_box_seal public_key_b64 plaintext output output_len =
        Inr (- 1, output, output_len)) \<and>
   encrypt_secret crypto_box_seal (Some key_b64) (Some ptext) (Some out) (Some cap) \<noteq>
     Inr (- 1, out', cap')"
proof -
  have "encrypt_secret crypto_box_seal (Some key_b64) (Some ptext) (Some out) (Some cap) \<noteq>
     Inr (- 1, out', cap')"
    unfolding encrypt_secret_eq by (simp add: Let_def)
  then show ?thesis
    using encrypt_secret_null [of public_key_b64 plaintext "output" output_len crypto_box_seal]
    by blast
qed

theorem null_argument_rejected_witness:
  "encrypt_secret seal_stub None (Some ''hello'') (Some ''xxxx'') (Some 4) =
     Inr (- 1, Some ''xxxx'', Some 4)"
  using null_argument_rejected [of None "Some ''hello''" "Some ''xxxx''" "Some 4" seal_stub]
  by simp

text \<open>
  C5: a call that returns a status other than Success leaves the caller's output region
  as it was, and a failure other than BufferTooSmall (-4) leaves the capacity as it was.
\<close>

theorem failure_leaves_output:
  assumes "encrypt_secret crypto_box_seal public_key_b64 plaintext output output_len =
             Inr (status, output', output_len')"
      and "status \<noteq> 0"
  shows "output' = output \<and> (status \<noteq> - 4 \<longrightarrow> output_len' = output_len)"
proof (cases "public_key_b64 = None \<or> plaintext = None \<or> output = None \<or> output_len = None")
  case True
  from encrypt_secret_null [OF True] assms(1) show ?thesis by simp
next
  case False
  then obtain kb pt out cap where
    "public_key_b64 = Some kb" "plaintext = Some pt" "output = Some out" "output_len = Some cap"
    by auto
  with assms show ?thesis
    by (simp add: encrypt_secret_eq Let_def split: if_splits)
qed

theorem failure_leaves_output_witness:
  "\<exists>status output' output_len'.
     encrypt_secret seal_stub (Some ''Zm9v*mFy'') (Some ''hello'') (Some ''xxxx'') (Some 4) =
       Inr (status, output', output_len') \<and>
     status = - 2 \<and> output' = Some ''xxxx'' \<and> output_len' = Some 4"
proof -
  have d: "fst (decoded_key ''Zm9v*mFy'') \<noteq> 0"
    by (simp add: sodium_base642bin_def b64_char_to_byte_nat Let_def strlen_def
        crypto_box_PUBLICKEYBYTES_def)
  have h: "encrypt_secret seal_stub (Some ''Zm9v*mFy'') (Some ''hello'') (Some ''xxxx'') (Some 4) =
     Inr (- 2, Some ''xxxx'', Some 4)"
    using d by (simp add: encrypt_secret_eq Let_def)
  have n: "(- 2 :: int) \<noteq> 0" by simp
  show ?thesis
    using h failure_leaves_output [OF h n] by simp
qed

text \<open>
  C6, as the specification states it, for every plaintext accepted by a successful call:
  the cipher text of a plaintext with a zero byte is shorter than the plaintext plus
  \<^verbatim>\<open>crypto_box_SEALBYTES\<close>. For the five bytes \<open>a\<close>, 0, \<open>b\<close>, \<open>c\<close>, \<open>d\<close> the call returns
  Success; the cipher text has 49 bytes, not 5 + 48 = 53, and the text has 68 characters,
  not the 72 of a cipher text of 53 bytes.
\<close>

theorem embedded_zero_length:
  "encrypt_secret seal_stub (Some ''Zm9vYmFyZm9vYmFyZm9vYmFyZm9vYmFyZm9vYmFyMDA='')
     (Some [CHR ''a'', CHR 0x00, CHR ''b'', CHR ''c'', CHR ''d''])
     (Some (replicate 80 CHR ''x'')) (Some 80) =
   Inr (0, Some (''Zm9vYmFyZm9vYmFyZm9vYmFyZm9vYmFyZm9vYmFyMDAAAAAAAAAAAAAAAAAAAAAAYQ=='' @
                 replicate 12 CHR 0x00), Some 68) \<and>
   length (ciphertext_of seal_stub ''Zm9vYmFyZm9vYmFyZm9vYmFyZm9vYmFyZm9vYmFyMDA=''
             [CHR ''a'', CHR 0x00, CHR ''b'', CHR ''c'', CHR ''d'']) = 49 \<and>
   length [CHR ''a'', CHR 0x00, CHR ''b'', CHR ''c'', CHR ''d''] + crypto_box_SEALBYTES = 53 \<and>
   sodium_base64_ENCODED_LEN 53 sodium_base64_VARIANT_ORIGINAL - 1 = 72"
proof -
  let ?key = "''Zm9vYmFyZm9vYmFyZm9vYmFyZm9vYmFyZm9vYmFyMDA=''"
  let ?p = "[CHR ''a'', CHR 0x00, CHR ''b'', CHR ''c'', CHR ''d'']"
  have p: "takeWhile (\<lambda>c. c \<noteq> CHR 0x00) ?p = ''a''"
    by simp
  have s: "strlen ?p = 1"
    by (simp add: strlen_def)
  have "encrypt_secret seal_stub (Some ?key) (Some ?p) (Some (replicate 80 CHR ''x'')) (Some 80) =
      encrypt_secret seal_stub (Some ?key) (Some ''a'') (Some (replicate 80 CHR ''x'')) (Some 80)"
    unfolding encrypt_secret_prefix [of seal_stub "Some ?key" ?p] p ..
  moreover have "length (ciphertext_of seal_stub ?key ?p) = 49"
    by (simp add: store_bytes_def s crypto_box_SEALBYTES_def)
  moreover have "length ?p + crypto_box_SEALBYTES = 53"
    by (simp add: crypto_box_SEALBYTES_def)
  moreover have "sodium_base64_ENCODED_LEN 53 sodium_base64_VARIANT_ORIGINAL - 1 = 72"
    by (simp add: ENCODED_LEN_ORIGINAL)
  ultimately show ?thesis
    by (simp only: a_sealed simp_thms)
qed

text \<open>
  C6, amended: after a successful call on a plaintext without a zero byte, the
  intermediate cipher text, the vector that \<^verbatim>\<open>crypto_box_seal\<close> has filled, has the length
  of the plaintext plus \<^verbatim>\<open>crypto_box_SEALBYTES\<close>, and the text in the output region is the
  encoder's text of that vector, of length \<open>4 * \<lceil>n / 3\<rceil>\<close> for a cipher text of \<open>n\<close>
  bytes, which is \<^verbatim>\<open>sodium_base64_ENCODED_LEN\<close> less the terminator that the macro counts.
\<close>

theorem sealed_lengths:
  assumes "encrypt_secret crypto_box_seal (Some key_b64) (Some ptext) (Some out) (Some cap) =
             Inr (0, Some out', output_len')"
      and "CHR 0x00 \<notin> set ptext"
  shows "length (ciphertext_of crypto_box_seal key_b64 ptext) = length ptext + crypto_box_SEALBYTES \<and>
         takeWhile (\<lambda>c. c \<noteq> CHR 0x00) out' =
           bin2base64_text (ciphertext_of crypto_box_seal key_b64 ptext)
             (4 * ((length (ciphertext_of crypto_box_seal key_b64 ptext) + 2) div 3)) \<and>
         strlen out' = 4 * ((length (ciphertext_of crypto_box_seal key_b64 ptext) + 2) div 3) \<and>
         strlen out' + 1 =
           sodium_base64_ENCODED_LEN (length (ciphertext_of crypto_box_seal key_b64 ptext))
             sodium_base64_VARIANT_ORIGINAL"
proof -
  let ?c = "ciphertext_of crypto_box_seal key_b64 ptext"
  let ?n = "required_len ptext"
  from assms(1) obtain
    r: "?n \<le> cap" and
    o: "out' = bin2base64_text ?c (?n - 1) @ replicate (cap - (?n - 1)) CHR 0x00 @ drop cap out"
    by (rule encrypt_secret_success) simp_all
  have n: "?n = 4 * ((length ?c + 2) div 3) + 1"
    by (simp add: ENCODED_LEN_ORIGINAL ciphertext_of_length)
  from r n have "0 < cap - (?n - 1)" by simp
  from replicate_nul [OF this] o obtain rest where
    o': "out' = bin2base64_text ?c (?n - 1) @ CHR 0x00 # rest"
    by simp
  have t: "takeWhile (\<lambda>c. c \<noteq> CHR 0x00) out' = bin2base64_text ?c (?n - 1)"
    unfolding o' by (rule strlen_takeWhile [OF sealed_text(2)])
  have l: "strlen out' = ?n - 1"
    by (simp only: strlen_def [of out'] t sealed_text(1))
  have m: "?n - 1 = 4 * ((length ?c + 2) div 3)"
    using n by simp
  have p: "length ?c = length ptext + crypto_box_SEALBYTES"
    by (simp add: store_bytes_def strlen_prefix(2) [OF assms(2)])
  have "takeWhile (\<lambda>c. c \<noteq> CHR 0x00) out' =
           bin2base64_text ?c (4 * ((length ?c + 2) div 3)) \<and>
         strlen out' = 4 * ((length ?c + 2) div 3) \<and>
         strlen out' + 1 = sodium_base64_ENCODED_LEN (length ?c) sodium_base64_VARIANT_ORIGINAL"
    using t l n unfolding m by (simp add: ciphertext_of_length)
  with p show ?thesis
    by (rule conjI)
qed

theorem sealed_lengths_witness:
  "encrypt_secret seal_stub (Some ''Zm9vYmFyZm9vYmFyZm9vYmFyZm9vYmFyZm9vYmFyMDA='') (Some ''hello'')
     (Some (replicate 80 CHR ''x'')) (Some 80) =
   Inr (0, Some (''Zm9vYmFyZm9vYmFyZm9vYmFyZm9vYmFyZm9vYmFyMDAAAAAAAAAAAAAAAAAAAAAAaGVsbG8='' @
                 replicate 8 CHR 0x00), Some 72) \<and>
   length (ciphertext_of seal_stub ''Zm9vYmFyZm9vYmFyZm9vYmFyZm9vYmFyZm9vYmFyMDA='' ''hello'') = 53 \<and>
   strlen (''Zm9vYmFyZm9vYmFyZm9vYmFyZm9vYmFyZm9vYmFyMDAAAAAAAAAAAAAAAAAAAAAAaGVsbG8='' @
           replicate 8 CHR 0x00) = 72"
proof -
  have nul: "CHR 0x00 \<notin> set ''hello''"
    by simp
  have l: "length (ciphertext_of seal_stub ''Zm9vYmFyZm9vYmFyZm9vYmFyZm9vYmFyZm9vYmFyMDA=''
      ''hello'') = 53"
    by (simp add: store_bytes_def strlen_hello crypto_box_SEALBYTES_def)
  note s = sealed_lengths [OF hello_sealed nul]
  from s [THEN conjunct2, THEN conjunct2, THEN conjunct1]
  have "strlen (''Zm9vYmFyZm9vYmFyZm9vYmFyZm9vYmFyZm9vYmFyMDAAAAAAAAAAAAAAAAAAAAAAaGVsbG8='' @
           replicate 8 CHR 0x00) = 72"
    unfolding l by simp
  then show ?thesis
    by (rule conjI [OF hello_sealed conjI [OF l]])
qed

text \<open>
  C7: the stages run in the order argument check, decode, seal, encode. A null pointer
  gives -1 whatever the rest; a key that does not decode gives -2 whatever the primitive
  and the capacity are; a failing primitive gives -3 whatever the capacity is; a capacity
  below the required size gives -4; otherwise the call succeeds with 0. The first failing
  stage decides the status, and the codes of the stages are distinct.
\<close>

theorem stage_order:
  "(public_key_b64 = None \<or> plaintext = None \<or> output = None \<or> output_len = None \<longrightarrow>
      encrypt_secret crypto_box_seal public_key_b64 plaintext output output_len =
        Inr (- 1, output, output_len)) \<and>
   (fst (decoded_key key_b64) \<noteq> 0 \<longrightarrow>
      encrypt_secret crypto_box_seal (Some key_b64) (Some ptext) (Some out) (Some cap) =
        Inr (- 2, Some out, Some cap)) \<and>
   (fst (decoded_key key_b64) = 0 \<and> fst (sealed crypto_box_seal key_b64 ptext) \<noteq> 0 \<longrightarrow>
      encrypt_secret crypto_box_seal (Some key_b64) (Some ptext) (Some out) (Some cap) =
        Inr (- 3, Some out, Some cap)) \<and>
   (fst (decoded_key key_b64) = 0 \<and> fst (sealed crypto_box_seal key_b64 ptext) = 0 \<and>
    cap < required_len ptext \<longrightarrow>
      encrypt_secret crypto_box_seal (Some key_b64) (Some ptext) (Some out) (Some cap) =
        Inr (- 4, Some out, Some (required_len ptext))) \<and>
   (fst (decoded_key key_b64) = 0 \<and> fst (sealed crypto_box_seal key_b64 ptext) = 0 \<and>
    required_len ptext \<le> cap \<and> cap \<le> length out \<longrightarrow>
      (\<exists>text. encrypt_secret crypto_box_seal (Some key_b64) (Some ptext) (Some out) (Some cap) =
        Inr (0, Some text, Some (required_len ptext - 1)))) \<and>
   (encrypt_secret crypto_box_seal public_key_b64 plaintext output output_len =
      Inr (status, output', output_len') \<longrightarrow> status \<in> {- 1, - 2, - 3, - 4, 0})"
proof -
  have "encrypt_secret crypto_box_seal public_key_b64 plaintext output output_len =
      Inr (status, output', output_len') \<longrightarrow> status \<in> {- 1, - 2, - 3, - 4, 0}"
  proof (cases "public_key_b64 = None \<or> plaintext = None \<or> output = None \<or> output_len = None")
    case True
    from encrypt_secret_null [OF True] show ?thesis by simp
  next
    case False
    then obtain kb pt ob c where
      "public_key_b64 = Some kb" "plaintext = Some pt" "output = Some ob" "output_len = Some c"
      by auto
    then show ?thesis
      by (simp add: encrypt_secret_stages)
  qed
  then show ?thesis
    using encrypt_secret_null [of public_key_b64 plaintext "output" output_len crypto_box_seal]
    by (simp add: encrypt_secret_stages)
qed

theorem stage_order_witness:
  "encrypt_secret seal_stub None (Some ''hello'') (Some ''xxxx'') (Some 4) =
     Inr (- 1, Some ''xxxx'', Some 4) \<and>
   encrypt_secret seal_stub (Some ''Zm9v*mFy'') (Some ''hello'') (Some ''xxxx'') (Some 4) =
     Inr (- 2, Some ''xxxx'', Some 4) \<and>
   encrypt_secret seal_fails (Some ''Zm9vYmFyZm9vYmFyZm9vYmFyZm9vYmFyZm9vYmFyMDA='') (Some ''hello'')
     (Some ''xxxx'') (Some 4) = Inr (- 3, Some ''xxxx'', Some 4) \<and>
   encrypt_secret seal_stub (Some ''Zm9vYmFyZm9vYmFyZm9vYmFyZm9vYmFyZm9vYmFyMDA='') (Some ''hello'')
     (Some ''xxxx'') (Some 4) = Inr (- 4, Some ''xxxx'', Some 73) \<and>
   (\<exists>text. encrypt_secret seal_stub (Some ''Zm9vYmFyZm9vYmFyZm9vYmFyZm9vYmFyZm9vYmFyMDA='')
      (Some ''hello'') (Some (replicate 80 CHR ''x'')) (Some 80) = Inr (0, Some text, Some 72))"
proof -
  let ?key = "''Zm9vYmFyZm9vYmFyZm9vYmFyZm9vYmFyZm9vYmFyMDA=''"
  have bad: "fst (decoded_key ''Zm9v*mFy'') \<noteq> 0"
    by (simp add: sodium_base642bin_def b64_char_to_byte_nat Let_def strlen_def
        crypto_box_PUBLICKEYBYTES_def)
  have ok: "fst (decoded_key ?key) = 0"
    by (simp add: key_decodes)
  have fails: "fst (sealed seal_fails ?key ''hello'') \<noteq> 0"
    by (simp add: seal_fails_def)
  have seals: "fst (sealed seal_stub ?key ''hello'') = 0"
    by (simp add: seal_stub_def)
  show ?thesis
    using stage_order [of None "Some ''hello''" "Some ''xxxx''" "Some 4" seal_stub]
      stage_order [of _ _ _ _ seal_stub "''Zm9v*mFy''" "''hello''" "''xxxx''" 4]
      stage_order [of _ _ _ _ seal_fails ?key "''hello''" "''xxxx''" 4]
      stage_order [of _ _ _ _ seal_stub ?key "''hello''" "''xxxx''" 4]
      stage_order [of _ _ _ _ seal_stub ?key "''hello''" "replicate 80 CHR ''x''" 80]
      bad ok fails seals required_len_hello
    by simp
qed



text \<open>
  C9: the plaintext is read as a NUL-terminated string. For a plaintext that holds a zero
  byte, \<open>p\<close> being the bytes before the first one and \<open>rest\<close> the bytes after it, the
  message that \<^verbatim>\<open>crypto_box_seal\<close> is given is \<open>p\<close>, whatever the primitive is, and every
  size is that of \<open>p\<close>: the cipher text vector has \<^verbatim>\<open>crypto_box_SEALBYTES\<close> + \<open>length p\<close>
  bytes and the required size is the encoded length of that. The status, the output region
  and the capacity after the call are given by \<open>p\<close> alone, so the zero byte and \<open>rest\<close>
  never influence the output: the call returns what it returns on \<open>p\<close>.
\<close>

theorem plaintext_ends_at_first_zero:
  assumes "CHR 0x00 \<notin> set p"
  shows "encrypt_secret crypto_box_seal (Some key_b64) (Some (p @ CHR 0x00 # rest))
           (Some out) (Some cap) =
         (let (ret, public_key, decoded_len) = decoded_key key_b64;
              (status, written) = crypto_box_seal (map of_char p) public_key;
              ciphertext_len = crypto_box_SEALBYTES + length p;
              ciphertext = store_bytes (replicate ciphertext_len 0) written;
              b64_len = sodium_base64_ENCODED_LEN ciphertext_len sodium_base64_VARIANT_ORIGINAL
          in if ret \<noteq> 0 then Inr (- 2, Some out, Some cap)
             else if status \<noteq> 0 then Inr (- 3, Some out, Some cap)
             else if cap < b64_len then Inr (- 4, Some out, Some b64_len)
             else if length out < cap then Inl Overrun
             else Inr (0, Some (bin2base64_text ciphertext (b64_len - 1) @
                                replicate (cap - (b64_len - 1)) CHR 0x00 @ drop cap out),
                          Some (b64_len - 1))) \<and>
         encrypt_secret crypto_box_seal public_key_b64 (Some (p @ CHR 0x00 # rest))
           output output_len =
         encrypt_secret crypto_box_seal public_key_b64 (Some p) output output_len"
proof -
  have "encrypt_secret crypto_box_seal public_key_b64 (Some (p @ CHR 0x00 # rest))
           output output_len =
         encrypt_secret crypto_box_seal public_key_b64 (Some p) output output_len"
    unfolding encrypt_secret_prefix [of crypto_box_seal public_key_b64 "p @ CHR 0x00 # rest"]
      strlen_prefix(3) [OF assms] ..
  moreover have "encrypt_secret crypto_box_seal (Some key_b64) (Some (p @ CHR 0x00 # rest))
           (Some out) (Some cap) =
         (let (ret, public_key, decoded_len) = decoded_key key_b64;
              (status, written) = crypto_box_seal (map of_char p) public_key;
              ciphertext_len = crypto_box_SEALBYTES + length p;
              ciphertext = store_bytes (replicate ciphertext_len 0) written;
              b64_len = sodium_base64_ENCODED_LEN ciphertext_len sodium_base64_VARIANT_ORIGINAL
          in if ret \<noteq> 0 then Inr (- 2, Some out, Some cap)
             else if status \<noteq> 0 then Inr (- 3, Some out, Some cap)
             else if cap < b64_len then Inr (- 4, Some out, Some b64_len)
             else if length out < cap then Inl Overrun
             else Inr (0, Some (bin2base64_text ciphertext (b64_len - 1) @
                                replicate (cap - (b64_len - 1)) CHR 0x00 @ drop cap out),
                          Some (b64_len - 1)))"
    unfolding encrypt_secret_eq strlen_prefix(1,3) [OF assms]
    by (simp add: Let_def ENCODED_LEN_ORIGINAL case_prod_beta)
  ultimately show ?thesis
    by (rule conjI [rotated])
qed

theorem plaintext_ends_at_first_zero_witness:
  "encrypt_secret seal_stub (Some ''Zm9vYmFyZm9vYmFyZm9vYmFyZm9vYmFyZm9vYmFyMDA='')
     (Some [CHR ''a'', CHR 0x00, CHR ''b'']) (Some (replicate 80 CHR ''x'')) (Some 80) =
   Inr (0, Some (''Zm9vYmFyZm9vYmFyZm9vYmFyZm9vYmFyZm9vYmFyMDAAAAAAAAAAAAAAAAAAAAAAYQ=='' @
                 replicate 12 CHR 0x00), Some 68) \<and>
   encrypt_secret seal_stub (Some ''Zm9vYmFyZm9vYmFyZm9vYmFyZm9vYmFyZm9vYmFyMDA='')
     (Some [CHR ''a'', CHR 0x00, CHR ''b'']) (Some (replicate 80 CHR ''x'')) (Some 80) =
   encrypt_secret seal_stub (Some ''Zm9vYmFyZm9vYmFyZm9vYmFyZm9vYmFyZm9vYmFyMDA='')
     (Some ''a'') (Some (replicate 80 CHR ''x'')) (Some 80)"
proof -
  let ?key = "''Zm9vYmFyZm9vYmFyZm9vYmFyZm9vYmFyZm9vYmFyMDA=''"
  have nul: "CHR 0x00 \<notin> set ''a''"
    by simp
  have c: "store_bytes (replicate (crypto_box_SEALBYTES + length ''a'') 0)
             (map of_char ''foobarfoobarfoobarfoobarfoobar00'' @ replicate 16 0 @ map of_char ''a'') =
           map of_char ''foobarfoobarfoobarfoobarfoobar00'' @ replicate 16 0 @ map of_char ''a''"
    by (simp add: store_bytes_def crypto_box_SEALBYTES_def)
  have n: "sodium_base64_ENCODED_LEN (crypto_box_SEALBYTES + length ''a'')
             sodium_base64_VARIANT_ORIGINAL = 69"
    by (simp add: ENCODED_LEN_ORIGINAL crypto_box_SEALBYTES_def)
  have k: "decoded_key ?key = (0, map of_char ''foobarfoobarfoobarfoobarfoobar00'', 32)"
    by (rule key_decodes)
  have b: "seal_stub (map of_char ''a'') (map of_char ''foobarfoobarfoobarfoobarfoobar00'') =
      (0, map of_char ''foobarfoobarfoobarfoobarfoobar00'' @ replicate 16 0 @ map of_char ''a'')"
    by (simp add: seal_stub_def)
  note t = plaintext_ends_at_first_zero [of "''a''" seal_stub ?key "''b''"
      "replicate 80 CHR ''x''" 80 "Some ?key" "Some (replicate 80 CHR ''x'')" "Some 80", OF nul]
  from t [THEN conjunct1]
  have "encrypt_secret seal_stub (Some ?key) (Some [CHR ''a'', CHR 0x00, CHR ''b''])
      (Some (replicate 80 CHR ''x'')) (Some 80) =
    Inr (0, Some (bin2base64_text
        (map of_char ''foobarfoobarfoobarfoobarfoobar00'' @ replicate 16 0 @ map of_char ''a'') 68 @
        replicate 12 CHR 0x00), Some 68)"
    unfolding k Let_def prod.case b c n by simp
  then have "encrypt_secret seal_stub (Some ?key) (Some [CHR ''a'', CHR 0x00, CHR ''b''])
      (Some (replicate 80 CHR ''x'')) (Some 80) =
    Inr (0, Some (''Zm9vYmFyZm9vYmFyZm9vYmFyZm9vYmFyZm9vYmFyMDAAAAAAAAAAAAAAAAAAAAAAYQ=='' @
                  replicate 12 CHR 0x00), Some 68)"
    unfolding a_text .
  moreover from t [THEN conjunct2]
  have "encrypt_secret seal_stub (Some ?key) (Some [CHR ''a'', CHR 0x00, CHR ''b''])
      (Some (replicate 80 CHR ''x'')) (Some 80) =
    encrypt_secret seal_stub (Some ?key) (Some ''a'') (Some (replicate 80 CHR ''x'')) (Some 80)"
    by simp
  ultimately show ?thesis
    by (rule conjI)
qed

text \<open>
  C10: the required size that the call demands, and reports on BufferTooSmall, is the
  length of the encoded text plus one, for the terminator: for a key that decodes and a
  primitive that succeeds, a call whose capacity is exactly the length of the encoded text
  returns BufferTooSmall (-4) and reports the required size, and a successful call reports
  the required size less one.
\<close>

theorem required_size_counts_terminator:
  assumes "fst (decoded_key key_b64) = 0"
      and "fst (sealed crypto_box_seal key_b64 ptext) = 0"
  shows "required_len ptext =
           length (bin2base64_text (ciphertext_of crypto_box_seal key_b64 ptext)
                     (required_len ptext - 1)) + 1 \<and>
         encrypt_secret crypto_box_seal (Some key_b64) (Some ptext) (Some out)
             (Some (required_len ptext - 1)) =
           Inr (- 4, Some out, Some (required_len ptext)) \<and>
         (encrypt_secret crypto_box_seal (Some key_b64) (Some ptext) (Some out) (Some cap) =
            Inr (0, output', output_len') \<longrightarrow>
          output_len' = Some (required_len ptext - 1) \<and> required_len ptext \<le> cap)"
proof -
  have pos: "0 < required_len ptext"
    by (simp add: ENCODED_LEN_ORIGINAL)
  have a: "required_len ptext =
           length (bin2base64_text (ciphertext_of crypto_box_seal key_b64 ptext)
                     (required_len ptext - 1)) + 1"
    using pos by (simp only: sealed_text(1))
  have b: "encrypt_secret crypto_box_seal (Some key_b64) (Some ptext) (Some out)
             (Some (required_len ptext - 1)) =
           Inr (- 4, Some out, Some (required_len ptext))"
    using assms pos by (simp add: encrypt_secret_stages)
  have c: "encrypt_secret crypto_box_seal (Some key_b64) (Some ptext) (Some out) (Some cap) =
            Inr (0, output', output_len') \<longrightarrow>
          output_len' = Some (required_len ptext - 1) \<and> required_len ptext \<le> cap"
    by (simp add: encrypt_secret_stages split: if_splits)
  from a b c show ?thesis by blast
qed

theorem required_size_counts_terminator_witness:
  "encrypt_secret seal_stub (Some ''Zm9vYmFyZm9vYmFyZm9vYmFyZm9vYmFyZm9vYmFyMDA='') (Some ''hello'')
     (Some (replicate 80 CHR ''x'')) (Some 72) = Inr (- 4, Some (replicate 80 CHR ''x''), Some 73) \<and>
   (\<exists>out'. encrypt_secret seal_stub (Some ''Zm9vYmFyZm9vYmFyZm9vYmFyZm9vYmFyZm9vYmFyMDA='')
      (Some ''hello'') (Some (replicate 80 CHR ''x'')) (Some 73) = Inr (0, Some out', Some 72))"
proof -
  let ?key = "''Zm9vYmFyZm9vYmFyZm9vYmFyZm9vYmFyZm9vYmFyMDA=''"
  have ok: "fst (decoded_key ?key) = 0"
    by (simp add: key_decodes)
  have seals: "fst (sealed seal_stub ?key ''hello'') = 0"
    by (simp add: seal_stub_def)
  obtain out' where h: "encrypt_secret seal_stub (Some ?key) (Some ''hello'')
       (Some (replicate 80 CHR ''x'')) (Some 73) = Inr (0, Some out', Some 72)"
    using ok seals by (simp add: encrypt_secret_stages required_len_hello)
  from required_size_counts_terminator [where ?key_b64.0 = ?key and ptext = "''hello''"
      and crypto_box_seal = seal_stub and out = "replicate 80 CHR ''x''" and cap = 73
      and output' = "Some out'" and output_len' = "Some 72"]
    ok seals h required_len_hello
  show ?thesis
    by auto
qed

end
